theory Spec2Isabelle
  imports Main "HOL-Library.Word" "HOL-Library.Monad_Syntax"
begin

unbundle bit_operations_syntax

section \<open>The index-based compact container\<close>

text \<open>
  A shallow embedding of \<^verbatim>\<open>Compact_container_with_index_2\<close>, of its index type
  \<^verbatim>\<open>Index_for_cc_with_index\<close>, of its iterator \<^verbatim>\<open>CC_iterator_with_index\<close> and of the two
  growth policies. The index type \<^verbatim>\<open>IndexType\<close> (a template parameter, an unsigned
  integer type) is \<open>'w word\<close>: arithmetic wraps and the bit operations are those of the
  source. Every function that can run into a \<^verbatim>\<open>CGAL_assertion\<close>, a \<^verbatim>\<open>CGAL_precondition\<close>
  or an out-of-bounds access returns \<open>None\<close> there. Allocation itself is assumed to
  succeed.
\<close>

subsection \<open>Growth policies\<close>

datatype Increment_policy =
    Multiply_by_two_policy_for_cc_with_size nat
  | Constant_size_policy_for_cc_with_size nat

fun first_block_size :: "Increment_policy \<Rightarrow> nat" where
  "first_block_size (Multiply_by_two_policy_for_cc_with_size k) = k"
| "first_block_size (Constant_size_policy_for_cc_with_size k) = k"

subsection \<open>Elements, slots and indices\<close>

text \<open>
  The element type \<^verbatim>\<open>T\<close> gives access to one word through \<^verbatim>\<open>for_compact_container\<close>
  (the traits' \<^verbatim>\<open>size_t\<close> and \<^verbatim>\<open>set_size_t\<close>); everything else it holds is its payload.
  Copying or moving an element copies that word with it. A slot of \<^verbatim>\<open>all_items\<close> is
  the storage of one element: the word, and the payload when an object lives there
  (\<open>None\<close> for storage that is raw, destroyed or zeroed).
\<close>

record (overloaded) ('w, 'a) T =
  for_compact_container :: "'w word"
  payload :: 'a

type_synonym ('w, 'a) slot = "('w, 'a option) T"

datatype Type = USED | FREE

record (overloaded) 'w Index_for_cc_with_index =
  m_idx :: "'w word"

record (overloaded) ('w, 'a) Compact_container_with_index_2 =
  capacity_m :: "'w word"
  size_m :: "'w word"
  block_size :: "'w word"
  free_list :: "'w word"
  all_items :: "('w, 'a) slot list option"

record (overloaded) 'w CC_iterator_with_index =
  m_ptr_to_cc :: "nat option"
  m_index :: "'w word"

text \<open>\<^verbatim>\<open>Index_for_cc_with_index(size_type idx = max()/2)\<close> and \<^verbatim>\<open>is_valid\<close>.\<close>

definition Index_default :: "'w::len Index_for_cc_with_index" where
  "Index_default = \<lparr>m_idx = (- 1) div 2\<rparr>"

definition is_valid :: "'w::len Index_for_cc_with_index \<Rightarrow> bool" where
  "is_valid i = (m_idx i \<noteq> (- 1) div 2)"

text \<open>\<^verbatim>\<open>bottom = max()/2\<close> and \<^verbatim>\<open>mask_type = ((size_type)-1) - (((size_type)-1)/2)\<close>.\<close>

definition bottom :: "'w::len word" where
  "bottom = (- 1) div 2"

definition mask_type :: "'w::len word" where
  "mask_type = (- 1) - ((- 1) div 2)"

text \<open>The casts between \<^verbatim>\<open>Type\<close> and \<^verbatim>\<open>size_type\<close> (\<^verbatim>\<open>USED = 0\<close>, \<^verbatim>\<open>FREE = 1\<close>).\<close>

definition Type_of_size_type :: "'w::len word \<Rightarrow> Type" where
  "Type_of_size_type x = (if x = 0 then USED else FREE)"

fun size_type_of_Type :: "Type \<Rightarrow> 'w::len word" where
  "size_type_of_Type USED = 0"
| "size_type_of_Type FREE = 1"

text \<open>Placement construction of a copy of \<open>t\<close>, and raw storage (its word is
  indeterminate in the source; nothing reads it before it is written).\<close>

definition construct :: "('w::len, 'a) T \<Rightarrow> ('w, 'a) slot" where
  "construct t = \<lparr>for_compact_container = for_compact_container t, payload = Some (payload t)\<rparr>"

definition raw_storage :: "('w::len, 'a) slot" where
  "raw_storage = \<lparr>for_compact_container = 0, payload = None\<rparr>"

subsection \<open>Bit squatting\<close>

text \<open>\<^verbatim>\<open>nbbits_size_type_m1 = sizeof(size_type)*8 - 1\<close> is \<open>LENGTH('w) - 1\<close>.\<close>

definition static_type :: "('w::len, 'b) T \<Rightarrow> Type" where
  "static_type e =
     Type_of_size_type (drop_bit (LENGTH('w) - 1) (for_compact_container e AND mask_type))"

definition static_get_val :: "('w::len, 'b) T \<Rightarrow> 'w word" where
  "static_get_val e = for_compact_container e AND NOT mask_type"

definition static_set_val :: "('w::len, 'b) T \<Rightarrow> 'w word \<Rightarrow> Type \<Rightarrow> ('w, 'b) T" where
  "static_set_val e v t =
     e\<lparr>for_compact_container := v OR push_bit (LENGTH('w) - 1) (size_type_of_Type t)\<rparr>"

definition static_set_type :: "('w::len, 'b) T \<Rightarrow> Type \<Rightarrow> ('w, 'b) T" where
  "static_set_type e t = static_set_val e (for_compact_container e AND NOT mask_type) t"

subsection \<open>Access to the slots\<close>

text \<open>\<^verbatim>\<open>operator[]\<close>, with its assertion \<^verbatim>\<open>all_items != nullptr && i < capacity_\<close>; a read
  beyond the allocated array is an error as well. \<open>assign\<close> writes through the reference
  that \<^verbatim>\<open>operator[]\<close> returned.\<close>

definition subscript ::
  "('w::len, 'a) Compact_container_with_index_2 \<Rightarrow> 'w word \<Rightarrow> ('w, 'a) slot option" where
  "subscript c i =
     (case all_items c of
        None \<Rightarrow> None
      | Some xs \<Rightarrow> if i < capacity_m c \<and> unat i < length xs then Some (xs ! unat i) else None)"

definition assign ::
  "('w::len, 'a) Compact_container_with_index_2 \<Rightarrow> 'w word \<Rightarrow> ('w, 'a) slot
   \<Rightarrow> ('w, 'a) Compact_container_with_index_2" where
  "assign c i e = c\<lparr>all_items := map_option (\<lambda>xs. xs[unat i := e]) (all_items c)\<rparr>"

definition type ::
  "('w::len, 'a) Compact_container_with_index_2 \<Rightarrow> 'w word \<Rightarrow> Type option" where
  "type c e = map_option static_type (subscript c e)"

definition is_used ::
  "('w::len, 'a) Compact_container_with_index_2 \<Rightarrow> 'w word \<Rightarrow> bool option" where
  "is_used c i = map_option (\<lambda>t. t = USED) (type c i)"

definition get_val ::
  "('w::len, 'a) Compact_container_with_index_2 \<Rightarrow> 'w word \<Rightarrow> 'w word option" where
  "get_val c e = map_option static_get_val (subscript c e)"

definition set_val ::
  "('w::len, 'a) Compact_container_with_index_2 \<Rightarrow> 'w word \<Rightarrow> 'w word \<Rightarrow> Type
   \<Rightarrow> ('w, 'a) Compact_container_with_index_2 option" where
  "set_val c e v t =
     (case subscript c e of
        None \<Rightarrow> None
      | Some x \<Rightarrow> Some (assign c e (static_set_val x v t)))"

definition put_on_free_list ::
  "('w::len, 'a) Compact_container_with_index_2 \<Rightarrow> 'w word
   \<Rightarrow> ('w, 'a) Compact_container_with_index_2 option" where
  "put_on_free_list c x =
     (case set_val c x (free_list c) FREE of
        None \<Rightarrow> None
      | Some c' \<Rightarrow> Some (c'\<lparr>free_list := x\<rparr>))"

subsection \<open>Construction, queries and clear\<close>

definition init :: "Increment_policy \<Rightarrow> ('w::len, 'a) Compact_container_with_index_2" where
  "init pol =
     \<lparr>capacity_m = 0, size_m = 0, block_size = of_nat (first_block_size pol),
      free_list = bottom, all_items = None\<rparr>"

definition size_cc :: "('w::len, 'a) Compact_container_with_index_2 \<Rightarrow> 'w word" where
  "size_cc c = size_m c"

definition capacity :: "('w::len, 'a) Compact_container_with_index_2 \<Rightarrow> 'w word" where
  "capacity c = capacity_m c"

definition empty_cc :: "('w::len, 'a) Compact_container_with_index_2 \<Rightarrow> bool" where
  "empty_cc c = (size_m c = 0)"

text \<open>\<^verbatim>\<open>alloc.destroy(&operator[](i))\<close>: the object's lifetime ends, the bytes stay.\<close>

definition destroy ::
  "('w::len, 'a) Compact_container_with_index_2 \<Rightarrow> 'w word
   \<Rightarrow> ('w, 'a) Compact_container_with_index_2 option" where
  "destroy c i =
     (case subscript c i of
        None \<Rightarrow> None
      | Some e \<Rightarrow> Some (assign c i (e\<lparr>payload := None\<rparr>)))"

text \<open>The loop of \<^verbatim>\<open>clear\<close>:
  \<^verbatim>\<open>for (size_type i=0; i<capacity_; ++i) if (is_used(i)) alloc.destroy(&operator[](i));\<close>\<close>

function destroy_used ::
  "('w::len, 'a) Compact_container_with_index_2 \<Rightarrow> 'w word
   \<Rightarrow> ('w, 'a) Compact_container_with_index_2 option" where
  "destroy_used c i =
     (if i < capacity_m c then
        (case is_used c i of
           None \<Rightarrow> None
         | Some u \<Rightarrow>
             (case (if u then destroy c i else Some c) of
                None \<Rightarrow> None
              | Some c' \<Rightarrow> destroy_used c' (i + 1)))
      else Some c)"
  by pat_completeness auto
termination
proof (relation "measure (\<lambda>(c, i). unat (capacity_m c) - unat i)", goal_cases)
  case 1
  show ?case by simp
next
  case (2 c i u c')
  from 2(3) have "capacity_m c' = capacity_m c"
    by (auto simp: destroy_def assign_def split: if_splits option.splits)
  moreover from 2(1) have "unat i < unat (capacity_m c)"
    by (simp add: word_less_nat_alt)
  moreover from 2(1) have "unat (i + 1) = unat i + 1"
    by unat_arith
  ultimately show ?case by simp
qed

declare destroy_used.simps [simp del]

text \<open>\<^verbatim>\<open>clear\<close>: destroy the used elements, deallocate, \<^verbatim>\<open>all_items = nullptr\<close>, \<^verbatim>\<open>init()\<close>.
  The result is the new state together with the array that \<^verbatim>\<open>deallocate\<close> receives, as
  the loop left it (no slot for \<^verbatim>\<open>nullptr\<close>): the destructions are visible there and
  nowhere in the new state.\<close>

definition clear ::
  "Increment_policy \<Rightarrow> ('w::len, 'a) Compact_container_with_index_2
   \<Rightarrow> (('w, 'a) Compact_container_with_index_2 \<times> ('w, 'a) slot list) option" where
  "clear pol c =
     (case destroy_used c 0 of
        None \<Rightarrow> None
      | Some c' \<Rightarrow> Some (init pol, case all_items c' of None \<Rightarrow> [] | Some xs \<Rightarrow> xs))"

subsection \<open>Growth\<close>

fun increase_size ::
  "Increment_policy \<Rightarrow> ('w::len, 'a) Compact_container_with_index_2
   \<Rightarrow> ('w, 'a) Compact_container_with_index_2" where
  "increase_size (Multiply_by_two_policy_for_cc_with_size k) cc = cc\<lparr>block_size := capacity_m cc\<rparr>"
| "increase_size (Constant_size_policy_for_cc_with_size k) cc = cc"

text \<open>The first loop of \<^verbatim>\<open>allocate_new_block\<close>, over \<^verbatim>\<open>index < oldcapacity\<close>: a used
  element is moved to the slot of the same index of \<^verbatim>\<open>all_items2\<close>, of a free one only
  the word is written, with \<^verbatim>\<open>static_set_val(all_items2[index],
  static_get_val(all_items[index]), FREE)\<close>. \<^verbatim>\<open>is_used(index)\<close> goes through \<^verbatim>\<open>operator[]\<close>
  of the container, whose \<^verbatim>\<open>capacity_\<close> is already the new one and whose \<^verbatim>\<open>all_items\<close>
  is still the old array. The old array is deallocated after the loop, so the
  destruction of the moved-from elements is not recorded.\<close>

function move_items ::
  "('w::len, 'a) Compact_container_with_index_2 \<Rightarrow> 'w word \<Rightarrow> 'w word
   \<Rightarrow> ('w, 'a) slot list \<Rightarrow> ('w, 'a) slot list option" where
  "move_items c oldcapacity index all_items2 =
     (if index < oldcapacity then
        (case is_used c index of
           None \<Rightarrow> None
         | Some u \<Rightarrow>
             (case all_items c of
                None \<Rightarrow> None
              | Some xs \<Rightarrow>
                  if unat index < length all_items2 then
                    move_items c oldcapacity (index + 1)
                      (all_items2[unat index :=
                         (if u then xs ! unat index
                          else static_set_val (all_items2 ! unat index)
                                 (static_get_val (xs ! unat index)) FREE)])
                  else None))
      else Some all_items2)"
  by pat_completeness auto
termination
proof (relation "measure (\<lambda>(c, oldcapacity, index, all_items2). unat oldcapacity - unat index)",
    goal_cases)
  case 1
  show ?case by simp
next
  case (2 c oldcapacity index all_items2 u xs)
  from 2(1) have "unat index < unat oldcapacity"
    by (simp add: word_less_nat_alt)
  moreover from 2(1) have "unat (index + 1) = unat index + 1"
    by unat_arith
  ultimately show ?case by simp
qed

declare move_items.simps [simp del]

text \<open>The second loop:
  \<^verbatim>\<open>for (size_type index = capacity_-1; index>oldcapacity; --index) put_on_free_list(index);\<close>\<close>

function thread_free ::
  "('w::len, 'a) Compact_container_with_index_2 \<Rightarrow> 'w word \<Rightarrow> 'w word
   \<Rightarrow> ('w, 'a) Compact_container_with_index_2 option" where
  "thread_free c oldcapacity index =
     (if index > oldcapacity then
        (case put_on_free_list c index of
           None \<Rightarrow> None
         | Some c' \<Rightarrow> thread_free c' oldcapacity (index - 1))
      else Some c)"
  by pat_completeness auto
termination
proof (relation "measure (\<lambda>(c, oldcapacity, index). unat index)", goal_cases)
  case 1
  show ?case by simp
next
  case (2 c oldcapacity index c')
  from 2(1) have "unat (index - 1) < unat index"
    by unat_arith
  then show ?case by simp
qed

declare thread_free.simps [simp del]

definition allocate_new_block ::
  "Increment_policy \<Rightarrow> ('w::len, 'a) Compact_container_with_index_2
   \<Rightarrow> ('w, 'a) Compact_container_with_index_2 option" where
  "allocate_new_block pol c =
     (let oldcapacity = capacity_m c;
          c1 = c\<lparr>capacity_m := capacity_m c + block_size c\<rparr>
      in case move_items c1 oldcapacity 0 (replicate (unat (capacity_m c1)) raw_storage) of
           None \<Rightarrow> None
         | Some all_items2 \<Rightarrow>
             (case thread_free (c1\<lparr>all_items := Some all_items2\<rparr>) oldcapacity (capacity_m c1 - 1) of
                None \<Rightarrow> None
              | Some c2 \<Rightarrow>
                  (case put_on_free_list c2 oldcapacity of
                     None \<Rightarrow> None
                   | Some c3 \<Rightarrow> Some (increase_size pol c3))))"

subsection \<open>Insertion and removal\<close>

text \<open>\<^verbatim>\<open>insert\<close>: the slot at the head of the free list is marked used, the head moves to
  the slot's link, and then the copy of \<open>t\<close> is constructed in the slot (the last write
  to it).\<close>

definition insert_cc ::
  "Increment_policy \<Rightarrow> ('w::len, 'a) Compact_container_with_index_2 \<Rightarrow> ('w, 'a) T
   \<Rightarrow> (('w, 'a) Compact_container_with_index_2 \<times> 'w Index_for_cc_with_index) option" where
  "insert_cc pol c t =
     (case (if free_list c = bottom then allocate_new_block pol c else Some c) of
        None \<Rightarrow> None
      | Some c1 \<Rightarrow>
          (let ret = \<lparr>m_idx = free_list c1\<rparr>
           in case subscript c1 (free_list c1) of
                None \<Rightarrow> None
              | Some e \<Rightarrow>
                  (let e1 = static_set_type e USED;
                       c2 = (assign c1 (free_list c1) e1)\<lparr>free_list := static_get_val e1\<rparr>;
                       c3 = assign c2 (m_idx ret) (construct t)
                   in Some (c3\<lparr>size_m := size_m c3 + 1\<rparr>, ret))))"

text \<open>\<^verbatim>\<open>emplace\<close> does the same with the element that \<^verbatim>\<open>value_type(args...)\<close> constructs,
  here \<open>t\<close>.\<close>

definition emplace ::
  "Increment_policy \<Rightarrow> ('w::len, 'a) Compact_container_with_index_2 \<Rightarrow> ('w, 'a) T
   \<Rightarrow> (('w, 'a) Compact_container_with_index_2 \<times> 'w Index_for_cc_with_index) option" where
  "emplace pol c t =
     (case (if free_list c = bottom then allocate_new_block pol c else Some c) of
        None \<Rightarrow> None
      | Some c1 \<Rightarrow>
          (let ret = \<lparr>m_idx = free_list c1\<rparr>
           in case subscript c1 (free_list c1) of
                None \<Rightarrow> None
              | Some e \<Rightarrow>
                  (let e1 = static_set_type e USED;
                       c2 = (assign c1 (free_list c1) e1)\<lparr>free_list := static_get_val e1\<rparr>;
                       c3 = assign c2 (m_idx ret) (construct t)
                   in Some (c3\<lparr>size_m := size_m c3 + 1\<rparr>, ret))))"

text \<open>\<^verbatim>\<open>erase\<close>: the precondition \<^verbatim>\<open>type(x) == USED\<close>, the destruction and the \<^verbatim>\<open>memset\<close>
  of the slot to zero (the build with assertions), \<^verbatim>\<open>put_on_free_list(x)\<close>,
  \<^verbatim>\<open>--size_\<close>.\<close>

definition erase ::
  "('w::len, 'a) Compact_container_with_index_2 \<Rightarrow> 'w Index_for_cc_with_index
   \<Rightarrow> ('w, 'a) Compact_container_with_index_2 option" where
  "erase c x =
     (case type c (m_idx x) of
        None \<Rightarrow> None
      | Some ty \<Rightarrow>
          if ty \<noteq> USED then None
          else (case put_on_free_list
                       (assign c (m_idx x) \<lparr>for_compact_container = 0, payload = None\<rparr>) (m_idx x) of
                  None \<Rightarrow> None
                | Some c' \<Rightarrow> Some (c'\<lparr>size_m := size_m c' - 1\<rparr>)))"

subsection \<open>Iterators\<close>

text \<open>An iterator holds the address of its container and an index; \<open>this\<close> is the
  address of the container \<open>c\<close>.\<close>

definition end_cc ::
  "nat \<Rightarrow> ('w::len, 'a) Compact_container_with_index_2 \<Rightarrow> 'w CC_iterator_with_index" where
  "end_cc this c = \<lparr>m_ptr_to_cc = Some this, m_index = capacity_m c\<rparr>"

text \<open>\<^verbatim>\<open>index_to\<close>: the iterator of this container at an index.\<close>

definition index_to :: "nat \<Rightarrow> 'w::len word \<Rightarrow> 'w CC_iterator_with_index" where
  "index_to this v = \<lparr>m_ptr_to_cc = Some this, m_index = v\<rparr>"

text \<open>The loop of \<^verbatim>\<open>increment\<close>:
  \<^verbatim>\<open>do { ++m_index; } while (m_index < capacity_ && !is_used(m_index));\<close>\<close>

function increment_loop ::
  "('w::len, 'a) Compact_container_with_index_2 \<Rightarrow> 'w word \<Rightarrow> 'w word option" where
  "increment_loop c i =
     (if i + 1 < capacity_m c then
        (case is_used c (i + 1) of
           None \<Rightarrow> None
         | Some u \<Rightarrow> if \<not> u then increment_loop c (i + 1) else Some (i + 1))
      else Some (i + 1))"
  by pat_completeness auto
termination
proof (relation
    "measure (\<lambda>(c, i). if i < capacity_m c then unat (capacity_m c) - unat i
                        else unat (capacity_m c) + 1)",
    goal_cases)
  case 1
  show ?case by simp
next
  case (2 c i u)
  show ?case
  proof (cases "i < capacity_m c")
    case True
    then have "unat (i + 1) = unat i + 1"
      by unat_arith
    moreover from True have "unat i < unat (capacity_m c)"
      by (simp add: word_less_nat_alt)
    ultimately show ?thesis using True 2(1) by simp
  next
    case False
    have "0 < unat (i + 1)" if "i + 1 \<noteq> 0"
      using that by (simp add: unat_gt_0)
    with False 2(1) show ?thesis
      by (auto simp: word_less_nat_alt)
  qed
qed

declare increment_loop.simps [simp del]

text \<open>\<^verbatim>\<open>increment\<close>, with its assertions that the iterator is not singular and not
  \<^verbatim>\<open>end()\<close>; the container \<open>c\<close> is the one the iterator points to.\<close>

definition increment ::
  "('w::len, 'a) Compact_container_with_index_2 \<Rightarrow> 'w CC_iterator_with_index
   \<Rightarrow> 'w CC_iterator_with_index option" where
  "increment c it =
     (if m_ptr_to_cc it = None then None
      else if \<not> m_index it < capacity_m c then None
      else map_option (\<lambda>j. it\<lparr>m_index := j\<rparr>) (increment_loop c (m_index it)))"

text \<open>\<^verbatim>\<open>begin\<close>: \<^verbatim>\<open>if (empty()) return end(); return iterator(this, 0, 0);\<close> where the
  constructor steps forward when slot 0 is not used.\<close>

definition begin_cc ::
  "nat \<Rightarrow> ('w::len, 'a) Compact_container_with_index_2 \<Rightarrow> 'w CC_iterator_with_index option" where
  "begin_cc this c =
     (if empty_cc c then Some (end_cc this c)
      else (case is_used c 0 of
              None \<Rightarrow> None
            | Some u \<Rightarrow>
                if \<not> u then increment c \<lparr>m_ptr_to_cc = Some this, m_index = 0\<rparr>
                else Some \<lparr>m_ptr_to_cc = Some this, m_index = 0\<rparr>))"

text \<open>What the loop \<^verbatim>\<open>for (it = begin(); it != end(); ++it)\<close> visits, from \<open>it\<close> on
  (\<^verbatim>\<open>std::distance(begin(), end())\<close> in the assertion of \<^verbatim>\<open>size\<close> is its length).\<close>

function visit_from ::
  "nat \<Rightarrow> ('w::len, 'a) Compact_container_with_index_2 \<Rightarrow> 'w CC_iterator_with_index
   \<Rightarrow> 'w CC_iterator_with_index list option" where
  "visit_from this c it =
     (if it = end_cc this c then Some []
      else (case increment c it of
              None \<Rightarrow> None
            | Some it' \<Rightarrow> map_option ((#) it) (visit_from this c it')))"
  by pat_completeness auto
termination
proof (relation "measure (\<lambda>(this, c, it). unat (capacity_m c) - unat (m_index it))", goal_cases)
  case 1
  show ?case by simp
next
  case (2 this c it it')
  have loop: "increment_loop d i = Some j \<Longrightarrow> i < capacity_m d \<Longrightarrow> i < j \<and> j \<le> capacity_m d"
    for d i j
  proof (induction d i rule: increment_loop.induct)
    case (1 d i)
    from 1(3) have step: "i < i + 1" "i + 1 \<le> capacity_m d"
      by unat_arith+
    show ?case
    proof (cases "i + 1 < capacity_m d \<and> is_used d (i + 1) = Some False")
      case True
      with 1(2) have "increment_loop d (i + 1) = Some j"
        by (subst (asm) increment_loop.simps) simp
      with 1(1) [of False] True have "i + 1 < j \<and> j \<le> capacity_m d"
        by simp
      with step show ?thesis by auto
    next
      case False
      with 1(2) have "j = i + 1"
        by (subst (asm) increment_loop.simps) (auto split: if_splits option.splits)
      with step show ?thesis by simp
    qed
  qed
  from 2(2) obtain j where j: "increment_loop c (m_index it) = Some j" "it' = it\<lparr>m_index := j\<rparr>"
    and lt: "m_index it < capacity_m c"
    by (auto simp: increment_def split: if_splits)
  from loop [OF j(1) lt] have "unat (m_index it) < unat j" "unat j \<le> unat (capacity_m c)"
    by (simp_all add: word_less_nat_alt word_le_nat_alt)
  with j(2) show ?case by simp
qed

declare visit_from.simps [simp del]

definition forward_iteration ::
  "nat \<Rightarrow> ('w::len, 'a) Compact_container_with_index_2
   \<Rightarrow> 'w CC_iterator_with_index list option" where
  "forward_iteration this c =
     (case begin_cc this c of
        None \<Rightarrow> None
      | Some it \<Rightarrow> visit_from this c it)"


text \<open>\<^verbatim>\<open>owns\<close>. The containers live in a store, from addresses to containers; \<open>this\<close>
  is the address of the container asked. \<^verbatim>\<open>&*cit\<close> goes through \<^verbatim>\<open>operator[]\<close> of the
  container the iterator points to. The address it yields lies in
  \<^verbatim>\<open>[all_items, all_items + capacity_)\<close> of this container when the iterator points to
  this container; the array of another container is another allocation, outside that
  range. \<^verbatim>\<open>type(cit)\<close> then reads the slot of this container at the iterator's index.\<close>

definition owns ::
  "(nat \<Rightarrow> ('w::len, 'a) Compact_container_with_index_2 option) \<Rightarrow> nat
   \<Rightarrow> 'w CC_iterator_with_index \<Rightarrow> bool option" where
  "owns store this cit =
     (case store this of
        None \<Rightarrow> None
      | Some c \<Rightarrow>
          if cit = end_cc this c then Some True
          else (case m_ptr_to_cc cit of
                  None \<Rightarrow> None
                | Some p \<Rightarrow>
                    (case store p of
                       None \<Rightarrow> None
                     | Some d \<Rightarrow>
                         (case subscript d (m_index cit) of
                            None \<Rightarrow> None
                          | Some e \<Rightarrow>
                              if p = this then map_option (\<lambda>t. t = USED) (type c (m_index cit))
                              else Some False))))"

subsection \<open>Sequences of operations\<close>

datatype ('t, 'i) operation =
    Insert 't
  | Emplace 't
  | Erase 'i

fun apply_operation ::
  "Increment_policy \<Rightarrow> ('w::len, 'a) Compact_container_with_index_2
   \<Rightarrow> (('w, 'a) T, 'w Index_for_cc_with_index) operation
   \<Rightarrow> ('w, 'a) Compact_container_with_index_2 option" where
  "apply_operation pol c (Insert t) = map_option fst (insert_cc pol c t)"
| "apply_operation pol c (Emplace t) = map_option fst (emplace pol c t)"
| "apply_operation pol c (Erase x) = erase c x"

fun run ::
  "Increment_policy \<Rightarrow> ('w::len, 'a) Compact_container_with_index_2
   \<Rightarrow> (('w, 'a) T, 'w Index_for_cc_with_index) operation list
   \<Rightarrow> ('w, 'a) Compact_container_with_index_2 option" where
  "run pol c [] = Some c"
| "run pol c (x # xs) =
     (case apply_operation pol c x of
        None \<Rightarrow> None
      | Some c' \<Rightarrow> run pol c' xs)"

text \<open>\<^verbatim>\<open>insert(first, last)\<close>: the elements one after the other, with the indices they
  got.\<close>

fun insert_range ::
  "Increment_policy \<Rightarrow> ('w::len, 'a) Compact_container_with_index_2 \<Rightarrow> ('w, 'a) T list
   \<Rightarrow> (('w, 'a) Compact_container_with_index_2 \<times> 'w Index_for_cc_with_index list) option" where
  "insert_range pol c [] = Some (c, [])"
| "insert_range pol c (t # ts) =
     (case insert_cc pol c t of
        None \<Rightarrow> None
      | Some (c', i) \<Rightarrow>
          (case insert_range pol c' ts of
             None \<Rightarrow> None
           | Some (c'', is) \<Rightarrow> Some (c'', i # is)))"

subsection \<open>The representation invariant\<close>

text \<open>The slots as a list, empty for \<^verbatim>\<open>all_items == nullptr\<close>.\<close>

definition items :: "('w::len, 'a) Compact_container_with_index_2 \<Rightarrow> ('w, 'a) slot list" where
  "items c = (case all_items c of None \<Rightarrow> [] | Some xs \<Rightarrow> xs)"

text \<open>\<open>chain xs h fl\<close>: following the links from the head \<open>h\<close> visits the slots \<open>fl\<close>, all
  marked free, and ends at \<open>bottom\<close>.\<close>

fun chain :: "('w::len, 'a) slot list \<Rightarrow> 'w word \<Rightarrow> nat list \<Rightarrow> bool" where
  "chain xs h [] = (h = bottom)"
| "chain xs h (i # fl) =
     (h = of_nat i \<and> i < length xs \<and> static_type (xs ! i) = FREE
      \<and> chain xs (static_get_val (xs ! i)) fl)"

text \<open>The free list is well formed: the array has \<^verbatim>\<open>capacity_\<close> slots, no index reaches
  \<open>bottom\<close>, and the free list is the chain \<open>fl\<close> without repetition.\<close>

definition free_list_ok :: "('w::len, 'a) Compact_container_with_index_2 \<Rightarrow> nat list \<Rightarrow> bool" where
  "free_list_ok c fl \<longleftrightarrow>
     length (items c) = unat (capacity_m c) \<and> capacity_m c \<le> bottom
     \<and> chain (items c) (free_list c) fl \<and> distinct fl"

text \<open>The full invariant: moreover every slot marked free is on the free list, and
  \<^verbatim>\<open>size_\<close> counts the other slots.\<close>

definition cc_inv :: "('w::len, 'a) Compact_container_with_index_2 \<Rightarrow> nat list \<Rightarrow> bool" where
  "cc_inv c fl \<longleftrightarrow>
     free_list_ok c fl
     \<and> (\<forall>i < length (items c). static_type (items c ! i) = FREE \<longrightarrow> i \<in> set fl)
     \<and> unat (size_m c) + length fl = length (items c)"

text \<open>The indices of the used slots, in ascending order.\<close>

definition used_indices :: "('w::len, 'a) Compact_container_with_index_2 \<Rightarrow> nat list" where
  "used_indices c = filter (\<lambda>i. static_type (items c ! i) = USED) [0 ..< length (items c)]"

text \<open>An operation is well tagged when the element it stores has the most significant
  bit of its word clear, so that the slot constructed from it reads as used.\<close>

fun well_tagged :: "(('w::len, 'a) T, 'i) operation \<Rightarrow> bool" where
  "well_tagged (Insert t) = (static_type t = USED)"
| "well_tagged (Emplace t) = (static_type t = USED)"
| "well_tagged (Erase x) = True"

text \<open>The capacity and the block size after \<open>n\<close> insertions into a freshly constructed
  container, in natural numbers (no wrap-around): a block is added when all slots
  are taken.\<close>

fun grown :: "Increment_policy \<Rightarrow> nat \<Rightarrow> nat \<times> nat" where
  "grown pol 0 = (0, first_block_size pol)"
| "grown pol (Suc n) =
     (case grown pol n of
        (C, B) \<Rightarrow>
          if n = C then
            (C + B, case pol of
                      Multiply_by_two_policy_for_cc_with_size k \<Rightarrow> C + B
                    | Constant_size_policy_for_cc_with_size k \<Rightarrow> B)
          else (C, B))"

subsection \<open>Example states\<close>

text \<open>A container of 8-bit indices with two used slots and an empty free list.\<close>

definition two_used :: "(8, nat) Compact_container_with_index_2" where
  "two_used =
     \<lparr>capacity_m = 2, size_m = 2, block_size = 2, free_list = 127,
      all_items = Some [\<lparr>for_compact_container = 0, payload = Some 10\<rparr>,
                        \<lparr>for_compact_container = 0, payload = Some 20\<rparr>]\<rparr>"

text \<open>A policy with blocks of four slots; an element whose word is 0, with a number as
  payload; and an element that is nothing but its word, with the most significant of
  its eight bits set (an \<^verbatim>\<open>Index_for_cc_with_index<unsigned char>\<close> built from 128 is
  such an element).\<close>

definition four :: Increment_policy where
  "four = Constant_size_policy_for_cc_with_size 4"

definition plain :: "nat \<Rightarrow> (8, nat) T" where
  "plain n = \<lparr>for_compact_container = 0, payload = n\<rparr>"

definition marked :: "(8, unit) T" where
  "marked = \<lparr>for_compact_container = 128, payload = ()\<rparr>"

text \<open>A policy with blocks of 127 slots: with indices of eight bits, \<open>bottom\<close> is 127,
  so the first block ends right below \<open>bottom\<close> and the second one starts at it.\<close>

definition half :: Increment_policy where
  "half = Constant_size_policy_for_cc_with_size 127"

section \<open>Properties\<close>

subsection \<open>The tag word\<close>

lemma bottom_mask: "(bottom :: 'w::len word) = mask (LENGTH('w) - 1)"
  unfolding bottom_def
  by (rule bit_word_eqI) (auto simp: bit_simps simp flip: drop_bit_eq_div [of 1, simplified])

lemma mask_type_not_bottom: "(mask_type :: 'w::len word) = NOT bottom"
  by (simp add: mask_type_def bottom_def not_eq_complement)

lemma mask_type_push: "(mask_type :: 'w::len word) = push_bit (LENGTH('w) - 1) 1"
  unfolding mask_type_not_bottom bottom_mask
  by (rule bit_word_eqI) (auto simp: bit_simps)

lemma not_mask_type: "NOT (mask_type :: 'w::len word) = bottom"
  by (simp add: mask_type_not_bottom)

lemma and_bottom_iff: "x AND bottom = x \<longleftrightarrow> x \<le> bottom" for x :: "'w::len word"
proof -
  have "uint (mask (LENGTH('w) - 1) :: 'w word) = mask (LENGTH('w) - 1)"
    by (simp add: uint_mask_eq min_def)
  also have "\<dots> = 2 ^ (LENGTH('w) - 1) - (1 :: int)"
    by (simp add: mask_eq_exp_minus_1)
  finally have "uint (bottom :: 'w word) = 2 ^ (LENGTH('w) - 1) - 1"
    by (simp only: bottom_mask)
  moreover have "x AND bottom = x \<longleftrightarrow> uint x < 2 ^ (LENGTH('w) - 1)"
    unfolding bottom_mask by (rule mask_eq_iff)
  ultimately show ?thesis
    by (simp add: word_le_def)
qed

lemma bit_bottom_iff: "bit (bottom :: 'w::len word) n \<longleftrightarrow> n < LENGTH('w) - 1"
  by (auto simp: bottom_mask bit_simps)

lemma le_bottom_iff: "x \<le> bottom \<longleftrightarrow> \<not> bit x (LENGTH('w) - 1)" for x :: "'w::len word"
proof -
  have "x AND bottom = x \<longleftrightarrow> \<not> bit x (LENGTH('w) - 1)"
  proof
    assume "x AND bottom = x"
    then have "bit x (LENGTH('w) - 1) = bit (x AND bottom) (LENGTH('w) - 1)" by simp
    then show "\<not> bit x (LENGTH('w) - 1)" by (simp add: bit_and_iff bit_bottom_iff)
  next
    assume *: "\<not> bit x (LENGTH('w) - 1)"
    show "x AND bottom = x"
    proof (rule bit_word_eqI)
      fix n assume "n < LENGTH('w)"
      then have "n < LENGTH('w) - 1 \<or> n = LENGTH('w) - 1" by arith
      with * show "bit (x AND bottom) n = bit x n"
        by (auto simp: bit_and_iff bit_bottom_iff)
    qed
  qed
  then show ?thesis by (simp add: and_bottom_iff)
qed

lemma static_type_bit:
  "static_type e = (if bit (for_compact_container e) (LENGTH('w) - 1) then FREE else USED)"
  for e :: "('w::len, 'b) T"
proof -
  have "drop_bit (LENGTH('w) - 1) (for_compact_container e AND mask_type) = 0
        \<longleftrightarrow> \<not> bit (for_compact_container e) (LENGTH('w) - 1)"
    by (auto simp: bit_eq_iff [where ?'a = "'w word"] mask_type_push bit_simps)
  then show ?thesis
    by (simp add: static_type_def Type_of_size_type_def)
qed

lemma static_type_USED_iff: "static_type e = USED \<longleftrightarrow> for_compact_container e \<le> bottom"
  by (simp add: static_type_bit le_bottom_iff)

lemma static_get_val_and: "static_get_val e = for_compact_container e AND bottom"
  by (simp add: static_get_val_def not_mask_type)

lemma static_type_set_val_FREE: "static_type (static_set_val e v FREE) = FREE"
  by (simp add: static_type_bit static_set_val_def bit_simps)

lemma static_get_val_set_val:
  "static_get_val (static_set_val e v t) = v AND bottom"
  by (cases t) (auto intro!: bit_word_eqI simp: static_get_val_and static_set_val_def bit_bottom_iff bit_simps)

lemma static_type_set_type_USED: "static_type (static_set_type e USED) = USED"
  by (simp add: static_type_bit static_set_type_def static_set_val_def not_mask_type bit_bottom_iff bit_simps)

lemma static_get_val_set_type: "static_get_val (static_set_type e t) = static_get_val e"
  unfolding static_set_type_def not_mask_type static_get_val_set_val
  by (simp add: static_get_val_and)

lemma payload_set_val: "payload (static_set_val e v t) = payload e"
  by (simp add: static_set_val_def)

subsection \<open>Slots and free-list chains\<close>


lemma subscript_items:
  "subscript c i = (if i < capacity_m c \<and> unat i < length (items c) then Some (items c ! unat i) else None)"
  by (simp add: subscript_def items_def split: option.splits)

lemma items_assign: "items (assign c i e) = (items c)[unat i := e]"
  by (simp add: assign_def items_def split: option.splits)

lemma assign_fields:
  "capacity_m (assign c i e) = capacity_m c"
  "size_m (assign c i e) = size_m c"
  "block_size (assign c i e) = block_size c"
  "free_list (assign c i e) = free_list c"
  by (simp_all add: assign_def)

lemma assign_Some: "all_items c = Some xs \<Longrightarrow> assign c i e = c\<lparr>all_items := Some (xs[unat i := e])\<rparr>"
  by (simp add: assign_def)

lemma subscript_SomeD:
  "subscript c i = Some e \<Longrightarrow> i < capacity_m c \<and> unat i < length (items c) \<and> e = items c ! unat i
     \<and> all_items c = Some (items c)"
  by (auto simp: subscript_def items_def split: option.splits if_splits)

lemma put_on_free_list_Some:
  "put_on_free_list c x = Some c' \<longleftrightarrow>
     x < capacity_m c \<and> unat x < length (items c) \<and>
     c' = c\<lparr>all_items := Some ((items c)[unat x := static_set_val (items c ! unat x) (free_list c) FREE]),
            free_list := x\<rparr>"
  by (auto simp: put_on_free_list_def set_val_def subscript_def items_def assign_def
      split: option.splits if_splits)

lemma items_update [simp]: "items (c\<lparr>all_items := Some xs\<rparr>) = xs"
  "items (c\<lparr>free_list := h\<rparr>) = items c"
  "items (c\<lparr>size_m := n\<rparr>) = items c"
  "items (c\<lparr>capacity_m := k\<rparr>) = items c"
  "items (c\<lparr>block_size := b\<rparr>) = items c"
  by (simp_all add: items_def)

lemma unat_of_nat_le: "i \<le> unat (x :: 'w::len word) \<Longrightarrow> unat (of_nat i :: 'w word) = i"
proof -
  assume "i \<le> unat x"
  moreover have "unat x < 2 ^ LENGTH('w)" by simp
  ultimately have "i < 2 ^ LENGTH('w)" by (rule order_le_less_trans)
  then show ?thesis by (simp add: unat_of_nat)
qed

lemma unat_of_nat_lt: "i < unat (x :: 'w::len word) \<Longrightarrow> unat (of_nat i :: 'w word) = i"
  by (rule unat_of_nat_le [of _ x]) simp

lemma of_nat_lt_iff: "i < unat (x :: 'w::len word) \<Longrightarrow> (of_nat i :: 'w word) < x"
  by (simp add: word_less_nat_alt unat_of_nat_lt)

lemma chain_frame:
  "chain xs h fl \<Longrightarrow> length ys \<ge> length xs \<Longrightarrow>
   (\<forall>i \<in> set fl. static_type (ys ! i) = static_type (xs ! i) \<and> static_get_val (ys ! i) = static_get_val (xs ! i))
   \<Longrightarrow> chain ys h fl"
  by (induction fl arbitrary: h) auto

lemma chain_update:
  assumes "chain xs h fl" and "j \<notin> set fl"
  shows "chain (xs[j := e]) h fl"
proof (rule chain_frame [OF assms(1)])
  show "length xs \<le> length (xs[j := e])" by simp
  have "j \<noteq> i" if "i \<in> set fl" for i
    using that assms(2) by auto
  then show "\<forall>i\<in>set fl. static_type (xs[j := e] ! i) = static_type (xs ! i) \<and>
      static_get_val (xs[j := e] ! i) = static_get_val (xs ! i)"
    by simp
qed

lemma chain_bounds: "chain xs h fl \<Longrightarrow> i \<in> set fl \<Longrightarrow> i < length xs \<and> static_type (xs ! i) = FREE"
  by (induction fl arbitrary: h) auto

subsection \<open>Clearing\<close>


lemma static_type_payload [simp]: "static_type (e\<lparr>payload := p\<rparr>) = static_type e"
  by (simp add: static_type_def)

lemma static_get_val_payload [simp]: "static_get_val (e\<lparr>payload := p\<rparr>) = static_get_val e"
  by (simp add: static_get_val_def)

lemma is_used_items:
  "is_used c i = (if i < capacity_m c \<and> unat i < length (items c)
                  then Some (static_type (items c ! unat i) = USED) else None)"
  by (simp add: is_used_def type_def subscript_items)

lemma type_items:
  "type c i = (if i < capacity_m c \<and> unat i < length (items c)
                  then Some (static_type (items c ! unat i)) else None)"
  by (simp add: type_def subscript_items)

lemma destroy_Some:
  "destroy c i = Some c' \<Longrightarrow>
     capacity_m c' = capacity_m c \<and> size_m c' = size_m c \<and> block_size c' = block_size c
     \<and> free_list c' = free_list c
     \<and> items c' = (items c)[unat i := (items c ! unat i)\<lparr>payload := None\<rparr>]"
  by (auto simp: destroy_def subscript_items items_assign assign_fields split: if_splits)

lemma destroy_used_result:
  "length (items c) = unat (capacity_m c) \<Longrightarrow>
   \<exists>c'. destroy_used c i = Some c' \<and> capacity_m c' = capacity_m c
     \<and> length (items c') = length (items c)
     \<and> (\<forall>j < length (items c). items c' ! j =
           (if unat i \<le> j \<and> static_type (items c ! j) = USED
            then (items c ! j)\<lparr>payload := None\<rparr> else items c ! j))"
proof (induction c i rule: destroy_used.induct)
  case (1 c i)
  show ?case
  proof (cases "i < capacity_m c")
    case False
    then have "unat (capacity_m c) \<le> unat i"
      by (simp add: word_less_nat_alt)
    with False 1(2) show ?thesis
      by (subst destroy_used.simps) auto
  next
    case True
    then have lt: "unat i < length (items c)" and suc: "unat (i + 1) = unat i + 1"
      using 1(2) by (simp_all add: word_less_nat_alt) unat_arith
    define u where "u = (static_type (items c ! unat i) = USED)"
    have used: "is_used c i = Some u"
      using True lt by (simp add: is_used_items u_def)
    define c1 where "c1 = (if u then assign c i ((items c ! unat i)\<lparr>payload := None\<rparr>) else c)"
    have step: "(if u then destroy c i else Some c) = Some c1"
      using True lt by (simp add: c1_def destroy_def subscript_items)
    have c1: "capacity_m c1 = capacity_m c" "length (items c1) = length (items c)"
      "items c1 = (if u then (items c)[unat i := (items c ! unat i)\<lparr>payload := None\<rparr>] else items c)"
      by (simp_all add: c1_def assign_fields items_assign)
    from 1(1) [OF True used step] c1 1(2)
    obtain c' where c': "destroy_used c1 (i + 1) = Some c'" "capacity_m c' = capacity_m c"
      "length (items c') = length (items c)"
      "\<forall>j < length (items c). items c' ! j =
           (if unat i + 1 \<le> j \<and> static_type (items c1 ! j) = USED
            then (items c1 ! j)\<lparr>payload := None\<rparr> else items c1 ! j)"
      by (auto simp: suc)
    have "destroy_used c i = Some c'"
      using True used step c'(1) by (subst destroy_used.simps) simp
    moreover have "items c' ! j =
           (if unat i \<le> j \<and> static_type (items c ! j) = USED
            then (items c ! j)\<lparr>payload := None\<rparr> else items c ! j)" if "j < length (items c)" for j
    proof (cases "j = unat i")
      case True
      with c'(4) that lt show ?thesis
        by (simp add: c1(3) u_def)
    next
      case False
      with c'(4) that lt show ?thesis
        by (auto simp: c1(3))
    qed
    ultimately show ?thesis
      using c'(2,3) by blast
  qed
qed

lemma clear_result:
  assumes "length (items c) = unat (capacity_m c)"
  shows "\<exists>freed. clear pol c = Some (init pol, freed) \<and> length freed = length (items c)
     \<and> (\<forall>j < length (items c). freed ! j =
           (if static_type (items c ! j) = USED
            then (items c ! j)\<lparr>payload := None\<rparr> else items c ! j))"
proof -
  from destroy_used_result [OF assms, of 0]
  obtain d where d: "destroy_used c 0 = Some d" "length (items d) = length (items c)"
    and n: "\<forall>j < length (items c). items d ! j =
           (if unat (0 :: 'a word) \<le> j \<and> static_type (items c ! j) = USED
            then (items c ! j)\<lparr>payload := None\<rparr> else items c ! j)"
    by blast
  from d(1) have "clear pol c = Some (init pol, items d)"
    by (simp add: clear_def items_def)
  with d(2) n show ?thesis
    by simp
qed

lemma clear_init: "clear pol (init pol) = Some (init pol, [])"
  using clear_result [of "init pol" pol] by (simp add: items_def init_def)

lemma items_init [simp]: "items (init pol) = []"
  by (simp add: items_def init_def)

subsection \<open>Erasing\<close>


lemma erase_Some_iff:
  "erase c x = Some c' \<longleftrightarrow>
     m_idx x < capacity_m c \<and> unat (m_idx x) < length (items c)
     \<and> static_type (items c ! unat (m_idx x)) = USED
     \<and> c' = c\<lparr>all_items := Some ((items c)[unat (m_idx x) :=
                   static_set_val \<lparr>for_compact_container = 0, payload = None\<rparr> (free_list c) FREE]),
              free_list := m_idx x, size_m := size_m c - 1\<rparr>"
proof -
  let ?i = "m_idx x"
  let ?z = "\<lparr>for_compact_container = 0 :: 'a word, payload = None :: 'b option\<rparr>"
  have a: "(assign c ?i ?z)\<lparr>all_items := Y\<rparr> = c\<lparr>all_items := Y\<rparr>" for Y
    by (simp add: assign_def)
  show ?thesis
  proof (cases "?i < capacity_m c \<and> unat ?i < length (items c)")
    case False
    then show ?thesis
      by (auto simp: erase_def type_items)
  next
    case True
    then have "put_on_free_list (assign c ?i ?z) ?i =
        Some (c\<lparr>all_items := Some ((items c)[unat ?i := static_set_val ?z (free_list c) FREE]),
               free_list := ?i\<rparr>)"
      by (simp add: put_on_free_list_Some items_assign assign_fields a)
    with True show ?thesis
      by (auto simp: erase_def type_items)
  qed
qed

lemma of_nat_unat_le_bottom:
  "i < n \<Longrightarrow> n \<le> unat (bottom :: 'w::len word) \<Longrightarrow> (of_nat i :: 'w word) \<le> bottom \<and> (of_nat i :: 'w word) \<noteq> bottom
     \<and> unat (of_nat i :: 'w word) = i"
proof -
  assume a: "i < n" "n \<le> unat (bottom :: 'w word)"
  then have lt: "i < unat (bottom :: 'w word)" by simp
  have u: "unat (of_nat i :: 'w word) = i"
    by (rule unat_of_nat_lt [OF lt])
  with lt show ?thesis
    by (auto simp: word_le_nat_alt)
qed

lemma chain_head_le:
  "chain xs h fl \<Longrightarrow> length xs \<le> unat (bottom :: 'w::len word) \<Longrightarrow> h \<le> (bottom :: 'w word)"
  by (cases fl) (auto dest: of_nat_unat_le_bottom)

lemma free_list_ok_head:
  "free_list_ok c fl \<Longrightarrow> free_list c \<le> bottom"
  by (auto simp: free_list_ok_def word_le_nat_alt intro!: chain_head_le [unfolded word_le_nat_alt])



lemma chain_length_lt:
  assumes "chain xs h fl" "distinct fl" "i < length xs" "i \<notin> set fl"
  shows "length fl < length xs"
proof -
  have "set fl \<subseteq> {0..<length xs} - {i}"
    using assms chain_bounds [OF assms(1)] by auto
  then have "card (set fl) \<le> card ({0..<length xs} - {i})"
    by (intro card_mono) auto
  with assms(2,3) show ?thesis
    by (simp add: distinct_card)
qed

lemma erase_free_list_ok:
  fixes c :: "('w::len, 'a) Compact_container_with_index_2"
  assumes ok: "free_list_ok c fl" and er: "erase c x = Some c'"
  shows "free_list_ok c' (unat (m_idx x) # fl) \<and> unat (m_idx x) \<notin> set fl"
proof -
  let ?i = "unat (m_idx x)"
  define z :: "('w, 'a) slot" where "z = static_set_val \<lparr>for_compact_container = 0, payload = None\<rparr> (free_list c) FREE"
  from er have i: "?i < length (items c)" and used: "static_type (items c ! ?i) = USED"
    and c': "c' = c\<lparr>all_items := Some ((items c)[?i := z]), free_list := m_idx x, size_m := size_m c - 1\<rparr>"
    by (simp_all add: erase_Some_iff z_def)
  from ok have len: "length (items c) = unat (capacity_m c)" and cap: "capacity_m c \<le> bottom"
    and ch: "chain (items c) (free_list c) fl" and d: "distinct fl"
    by (simp_all add: free_list_ok_def)
  have notin: "?i \<notin> set fl"
    using chain_bounds [OF ch, of ?i] used by auto
  have "free_list c \<le> bottom"
    by (rule free_list_ok_head [OF ok])
  then have val: "static_get_val z = free_list c" and ty: "static_type z = FREE"
    by (simp_all add: z_def static_get_val_set_val and_bottom_iff static_type_set_val_FREE)
  have "chain ((items c)[?i := z]) (free_list c) fl"
    by (rule chain_update [OF ch notin])
  with i val ty have "chain ((items c)[?i := z]) (m_idx x) (?i # fl)"
    by simp
  with len cap d notin show ?thesis
    by (simp add: free_list_ok_def c' del: chain.simps)
qed

lemma erase_cc_inv:
  fixes c :: "('w::len, 'a) Compact_container_with_index_2"
  assumes inv: "cc_inv c fl" and er: "erase c x = Some c'"
  shows "cc_inv c' (unat (m_idx x) # fl) \<and> unat (size_m c) = Suc (unat (size_m c'))"
proof -
  let ?i = "unat (m_idx x)"
  define z :: "('w, 'a) slot" where "z = static_set_val \<lparr>for_compact_container = 0, payload = None\<rparr> (free_list c) FREE"
  from er have i: "?i < length (items c)"
    and c': "c' = c\<lparr>all_items := Some ((items c)[?i := z]), free_list := m_idx x, size_m := size_m c - 1\<rparr>"
    by (simp_all add: erase_Some_iff z_def)
  from inv have ok: "free_list_ok c fl"
    and free: "\<forall>j < length (items c). static_type (items c ! j) = FREE \<longrightarrow> j \<in> set fl"
    and sz: "unat (size_m c) + length fl = length (items c)"
    by (simp_all add: cc_inv_def)
  from erase_free_list_ok [OF ok er] have ok': "free_list_ok c' (?i # fl)" and notin: "?i \<notin> set fl"
    by simp_all
  from ok have "chain (items c) (free_list c) fl" "distinct fl"
    by (simp_all add: free_list_ok_def)
  from chain_length_lt [OF this i notin] sz have pos: "0 < unat (size_m c)"
    by simp
  then have "size_m c \<noteq> 0"
    by auto
  then have dec: "unat (size_m c - 1) = unat (size_m c) - 1"
    by (rule unat_minus_one)
  have free': "j \<in> set (?i # fl)"
    if "j < length (items c')" "static_type (items c' ! j) = FREE" for j
  proof (cases "j = ?i")
    case True
    then show ?thesis by simp
  next
    case False
    with that free show ?thesis
      by (simp add: c')
  qed
  from ok' free' sz pos dec show ?thesis
    unfolding cc_inv_def by (simp add: c')
qed

subsection \<open>Indices of eight bits\<close>

lemma bottom_8: "(bottom :: 8 word) = 127"
  by (simp add: bottom_def)

lemma static_type_8: "static_type (e :: (8, 'b) T) = (if for_compact_container e \<le> 127 then USED else FREE)"
  using static_type_USED_iff [of e] by (cases "static_type e") (auto simp: bottom_8)

lemma two_used_inv: "cc_inv two_used []"
  by (simp add: cc_inv_def free_list_ok_def two_used_def items_def bottom_8 static_type_8 less_Suc_eq)

subsection \<open>Growth\<close>


lemma all_items_items: "unat i < length (items c) \<Longrightarrow> all_items c = Some (items c)"
  by (auto simp: items_def split: option.splits)

lemma move_items_result:
  fixes c :: "('w::len, 'a) Compact_container_with_index_2"
  assumes "length (items c) = unat oldcapacity" and "oldcapacity \<le> capacity_m c"
    and "unat (capacity_m c) \<le> length buf"
  shows "\<exists>ys. move_items c oldcapacity index buf = Some ys \<and> length ys = length buf
     \<and> (\<forall>j < length buf. ys ! j =
          (if unat index \<le> j \<and> j < unat oldcapacity
           then (if static_type (items c ! j) = USED then items c ! j
                 else static_set_val (buf ! j) (static_get_val (items c ! j)) FREE)
           else buf ! j))"
  using assms
proof (induction c oldcapacity index buf rule: move_items.induct)
  case (1 c oldcapacity index buf)
  show ?case
  proof (cases "index < oldcapacity")
    case False
    then have "unat oldcapacity \<le> unat index"
      by (simp add: word_less_nat_alt)
    with False show ?thesis
      by (subst move_items.simps) auto
  next
    case True
    let ?k = "unat index"
    let ?xs = "items c"
    from True have k: "?k < unat oldcapacity" and suc: "unat (index + 1) = ?k + 1"
      by (simp_all add: word_less_nat_alt) unat_arith
    from k 1(2) have kx: "?k < length ?xs"
      by simp
    from True 1(3) have ic: "index < capacity_m c"
      by simp
    from k 1(3,4) have kb: "?k < length buf"
      by (simp add: word_le_nat_alt)
    define u where "u = (static_type (?xs ! ?k) = USED)"
    define v where "v = (if u then ?xs ! ?k
                         else static_set_val (buf ! ?k) (static_get_val (?xs ! ?k)) FREE)"
    have used: "is_used c index = Some u"
      using ic kx by (simp add: is_used_items u_def)
    have arr: "all_items c = Some ?xs"
      by (rule all_items_items [OF kx])
    have "unat (capacity_m c) \<le> length (buf[?k := v])"
      using 1(4) by simp
    from 1(1) [OF True used arr kb 1(2) 1(3)] this
    obtain ys where ys: "move_items c oldcapacity (index + 1) (buf[?k := v]) = Some ys"
      "length ys = length buf"
      "\<forall>j < length buf. ys ! j =
          (if ?k + 1 \<le> j \<and> j < unat oldcapacity
           then (if static_type (?xs ! j) = USED then ?xs ! j
                 else static_set_val (buf[?k := v] ! j) (static_get_val (?xs ! j)) FREE)
           else buf[?k := v] ! j)"
      unfolding v_def suc by auto
    have run: "move_items c oldcapacity index buf = Some ys"
      using True used arr kb ys(1) unfolding v_def
      by (subst move_items.simps) simp
    have "ys ! j =
          (if ?k \<le> j \<and> j < unat oldcapacity
           then (if static_type (?xs ! j) = USED then ?xs ! j
                 else static_set_val (buf ! j) (static_get_val (?xs ! j)) FREE)
           else buf ! j)" if "j < length buf" for j
    proof (cases "j = ?k")
      case True
      from ys(3) that have "ys ! j =
          (if ?k + 1 \<le> j \<and> j < unat oldcapacity
           then (if static_type (?xs ! j) = USED then ?xs ! j
                 else static_set_val (buf[?k := v] ! j) (static_get_val (?xs ! j)) FREE)
           else buf[?k := v] ! j)"
        by blast
      with True kb k show ?thesis
        by (simp add: v_def u_def)
    next
      case False
      from ys(3) that have "ys ! j =
          (if ?k + 1 \<le> j \<and> j < unat oldcapacity
           then (if static_type (?xs ! j) = USED then ?xs ! j
                 else static_set_val (buf[?k := v] ! j) (static_get_val (?xs ! j)) FREE)
           else buf[?k := v] ! j)"
        by blast
      with False show ?thesis
        by (cases "?k \<le> j") simp_all
    qed
    with run ys(2) show ?thesis
      by blast
  qed
qed



lemma thread_free_result:
  fixes c :: "('w::len, 'a) Compact_container_with_index_2"
  assumes "length (items c) = unat (capacity_m c)" and "index < capacity_m c"
    and "oldcapacity \<le> index"
  shows "\<exists>c'. thread_free c oldcapacity index = Some c' \<and> capacity_m c' = capacity_m c
     \<and> size_m c' = size_m c \<and> block_size c' = block_size c
     \<and> free_list c' = (if oldcapacity < index then oldcapacity + 1 else free_list c)
     \<and> length (items c') = length (items c)
     \<and> (\<forall>j < length (items c). items c' ! j =
          (if unat oldcapacity < j \<and> j \<le> unat index
           then static_set_val (items c ! j)
                  (if j = unat index then free_list c else of_nat (j + 1)) FREE
           else items c ! j))"
  using assms
proof (induction c oldcapacity index rule: thread_free.induct)
  case (1 c oldcapacity index)
  show ?case
  proof (cases "oldcapacity < index")
    case False
    then show ?thesis
      by (subst thread_free.simps) (auto simp: word_less_nat_alt)
  next
    case True
    let ?k = "unat index"
    let ?xs = "items c"
    from 1(2,3) have kx: "?k < length ?xs"
      by (simp add: word_less_nat_alt)
    define c1 where "c1 = c\<lparr>all_items := Some (?xs[?k := static_set_val (?xs ! ?k) (free_list c) FREE]),
                              free_list := index\<rparr>"
    have put: "put_on_free_list c index = Some c1"
      using 1(3) kx by (simp add: put_on_free_list_Some c1_def)
    from True have pred: "unat (index - 1) = ?k - 1" and kpos: "0 < ?k"
      and old: "unat oldcapacity < ?k" and le: "oldcapacity \<le> index - 1"
      and olds: "unat (oldcapacity + 1) = unat oldcapacity + 1"
      by unat_arith+
    from 1(3) have lt: "index - 1 < capacity_m c1"
      using kpos pred by (simp add: c1_def word_less_nat_alt)
    have len1: "length (items c1) = unat (capacity_m c1)"
      using 1(2) by (simp add: c1_def)
    from 1(1) [OF True put len1 lt le]
    obtain c' where c': "thread_free c1 oldcapacity (index - 1) = Some c'"
      "capacity_m c' = capacity_m c" "size_m c' = size_m c" "block_size c' = block_size c"
      "free_list c' = (if oldcapacity < index - 1 then oldcapacity + 1 else index)"
      "length (items c') = length ?xs"
      "\<forall>j < length ?xs. items c' ! j =
          (if unat oldcapacity < j \<and> j \<le> ?k - 1
           then static_set_val (items c1 ! j)
                  (if j = ?k - 1 then index else of_nat (j + 1)) FREE
           else items c1 ! j)"
      unfolding pred by (auto simp: c1_def)
    have run: "thread_free c oldcapacity index = Some c'"
      using True put c'(1) by (subst thread_free.simps) simp
    have "index = oldcapacity + 1" if "\<not> oldcapacity < index - 1"
      using that True by unat_arith
    with c'(5) True have head: "free_list c' = (if oldcapacity < index then oldcapacity + 1 else free_list c)"
      by auto
    have "items c' ! j =
          (if unat oldcapacity < j \<and> j \<le> ?k
           then static_set_val (?xs ! j) (if j = ?k then free_list c else of_nat (j + 1)) FREE
           else ?xs ! j)" if "j < length ?xs" for j
    proof -
      from c'(7) that have eq: "items c' ! j =
          (if unat oldcapacity < j \<and> j \<le> ?k - 1
           then static_set_val (items c1 ! j)
                  (if j = ?k - 1 then index else of_nat (j + 1)) FREE
           else items c1 ! j)"
        by blast
      show ?thesis
      proof (cases "j = ?k")
        case True
        with eq kx kpos old show ?thesis
          by (simp add: c1_def)
      next
        case False
        have "(of_nat (j + 1) :: 'w word) = index" if "j = ?k - 1"
          using that kpos by simp
        with False eq show ?thesis
          by (cases "j \<le> ?k - 1") (auto simp: c1_def)
      qed
    qed
    with run c'(2,3,4,6) head show ?thesis
      by blast
  qed
qed



lemma increase_size_fields:
  "capacity_m (increase_size pol c) = capacity_m c"
  "size_m (increase_size pol c) = size_m c"
  "free_list (increase_size pol c) = free_list c"
  "items (increase_size pol c) = items c"
  "all_items (increase_size pol c) = all_items c"
  "block_size (increase_size pol c) =
     (case pol of Multiply_by_two_policy_for_cc_with_size k \<Rightarrow> capacity_m c
      | Constant_size_policy_for_cc_with_size k \<Rightarrow> block_size c)"
  by (cases pol; simp add: items_def)+

lemma allocate_new_block_result:
  fixes c :: "('w::len, 'a) Compact_container_with_index_2"
  assumes len: "length (items c) = unat (capacity_m c)"
    and nowrap: "unat (capacity_m c) + unat (block_size c) < 2 ^ LENGTH('w)"
    and bs: "block_size c \<noteq> 0"
  shows "\<exists>c'. allocate_new_block pol c = Some c'
     \<and> capacity_m c' = capacity_m c + block_size c \<and> size_m c' = size_m c
     \<and> block_size c' =
         (case pol of Multiply_by_two_policy_for_cc_with_size k \<Rightarrow> capacity_m c + block_size c
          | Constant_size_policy_for_cc_with_size k \<Rightarrow> block_size c)
     \<and> free_list c' = capacity_m c
     \<and> length (items c') = unat (capacity_m c) + unat (block_size c)
     \<and> (\<forall>j < unat (capacity_m c) + unat (block_size c). items c' ! j =
          (if j < unat (capacity_m c)
           then (if static_type (items c ! j) = USED then items c ! j
                 else static_set_val raw_storage (static_get_val (items c ! j)) FREE)
           else static_set_val raw_storage
                  (if j + 1 < unat (capacity_m c) + unat (block_size c) then of_nat (j + 1)
                   else free_list c) FREE))"
proof -
  let ?old = "capacity_m c"
  let ?n = "unat (capacity_m c)"
  let ?b = "unat (block_size c)"
  let ?xs = "items c"
  define c1 where "c1 = c\<lparr>capacity_m := capacity_m c + block_size c\<rparr>"
  define buf :: "('w, 'a) slot list" where "buf = replicate (unat (capacity_m c1)) raw_storage"
  from nowrap have sum: "unat (?old + block_size c) = ?n + ?b"
    by (simp add: unat_add_lem)
  from bs have bpos: "0 < ?b"
    by (simp add: unat_gt_0)
  have cap1: "capacity_m c1 = ?old + block_size c" "items c1 = ?xs" "free_list c1 = free_list c"
    "size_m c1 = size_m c" "block_size c1 = block_size c"
    by (simp_all add: c1_def)
  have le: "?old \<le> capacity_m c1"
    by (simp add: cap1 word_le_nat_alt sum)
  have lbuf: "length buf = ?n + ?b"
    by (simp add: buf_def cap1 sum)
  from move_items_result [of c1 ?old buf 0] len le lbuf
  obtain ys where ys: "move_items c1 ?old 0 buf = Some ys" "length ys = ?n + ?b"
    "\<forall>j < ?n + ?b. ys ! j =
          (if j < ?n
           then (if static_type (?xs ! j) = USED then ?xs ! j
                 else static_set_val (buf ! j) (static_get_val (?xs ! j)) FREE)
           else buf ! j)"
    by (auto simp: cap1 sum)
  define d where "d = c1\<lparr>all_items := Some ys\<rparr>"
  have d: "capacity_m d = ?old + block_size c" "items d = ys" "free_list d = free_list c"
    "size_m d = size_m c" "block_size d = block_size c"
    by (simp_all add: d_def cap1)
  have "unat (?old + block_size c) \<noteq> 0"
    using sum bpos by simp
  then have "?old + block_size c \<noteq> 0"
    by auto
  then have top: "unat (?old + block_size c - 1) = ?n + ?b - 1"
    using sum by (simp add: unat_minus_one)
  have i1: "?old + block_size c - 1 < capacity_m d"
    using top sum bpos by (simp add: d word_less_nat_alt)
  have i2: "?old \<le> ?old + block_size c - 1"
    using top bpos by (simp add: word_le_nat_alt)
  have lend: "length (items d) = unat (capacity_m d)"
    by (simp add: d ys(2) sum)
  from thread_free_result [OF lend i1 i2]
  obtain c2 where c2: "thread_free d ?old (?old + block_size c - 1) = Some c2"
    "capacity_m c2 = ?old + block_size c" "size_m c2 = size_m c" "block_size c2 = block_size c"
    "free_list c2 = (if ?old < ?old + block_size c - 1 then ?old + 1 else free_list c)"
    "length (items c2) = ?n + ?b"
    "\<forall>j < ?n + ?b. items c2 ! j =
          (if ?n < j \<and> j \<le> ?n + ?b - 1
           then static_set_val (ys ! j)
                  (if j = ?n + ?b - 1 then free_list c else of_nat (j + 1)) FREE
           else ys ! j)"
    unfolding top d ys(2) by blast
  define c3 where "c3 = c2\<lparr>all_items := Some ((items c2)[?n :=
                          static_set_val (items c2 ! ?n) (free_list c2) FREE]),
                        free_list := ?old\<rparr>"
  have put: "put_on_free_list c2 ?old = Some c3"
    using c2(2,6) sum bpos by (simp add: put_on_free_list_Some c3_def word_less_nat_alt)
  have "allocate_new_block pol c =
      (case move_items c1 ?old 0 buf of
         None \<Rightarrow> None
       | Some all_items2 \<Rightarrow>
           (case thread_free (c1\<lparr>all_items := Some all_items2\<rparr>) ?old (capacity_m c1 - 1) of
              None \<Rightarrow> None
            | Some c2 \<Rightarrow>
                (case put_on_free_list c2 ?old of
                   None \<Rightarrow> None
                 | Some c3 \<Rightarrow> Some (increase_size pol c3))))"
    unfolding allocate_new_block_def Let_def c1_def buf_def by (rule refl)
  also have "\<dots> = Some (increase_size pol c3)"
    using c2(1) put by (simp add: ys(1) d_def [symmetric] cap1(1))
  finally have run: "allocate_new_block pol c = Some (increase_size pol c3)" .
  have fields: "capacity_m c3 = ?old + block_size c" "size_m c3 = size_m c"
    "block_size c3 = block_size c" "free_list c3 = ?old" "length (items c3) = ?n + ?b"
    by (simp_all add: c3_def c2)
  have raw: "buf ! j = raw_storage" if "j < ?n + ?b" for j
    using that by (simp add: buf_def cap1 sum)
  have one: "?old + 1 = of_nat (?n + 1)"
    by simp
  have head: "?old < ?old + block_size c - 1 \<longleftrightarrow> ?n + 1 < ?n + ?b"
    using top by (auto simp: word_less_nat_alt)
  have cells: "items c3 ! j =
          (if j < ?n
           then (if static_type (?xs ! j) = USED then ?xs ! j
                 else static_set_val raw_storage (static_get_val (?xs ! j)) FREE)
           else static_set_val raw_storage
                  (if j + 1 < ?n + ?b then of_nat (j + 1) else free_list c) FREE)"
    if j: "j < ?n + ?b" for j
  proof -
    from ys(3) j have y: "ys ! j =
          (if j < ?n
           then (if static_type (?xs ! j) = USED then ?xs ! j
                 else static_set_val (buf ! j) (static_get_val (?xs ! j)) FREE)
           else buf ! j)"
      by blast
    from c2(7) j have z: "items c2 ! j =
          (if ?n < j \<and> j \<le> ?n + ?b - 1
           then static_set_val (ys ! j)
                  (if j = ?n + ?b - 1 then free_list c else of_nat (j + 1)) FREE
           else ys ! j)"
      by blast
    consider "j < ?n" | "j = ?n" | "?n < j"
      by arith
    then show ?thesis
    proof cases
      case 1
      with y z j show ?thesis
        by (simp add: c3_def raw)
    next
      case 2
      with y z j c2(6) have "items c3 ! j = static_set_val raw_storage (free_list c2) FREE"
        by (simp add: c3_def raw)
      with 2 c2(5) head one show ?thesis
        by (simp del: of_nat_add of_nat_Suc)
    next
      case 3
      with y z j have "items c3 ! j = static_set_val raw_storage
                  (if j = ?n + ?b - 1 then free_list c else of_nat (j + 1)) FREE"
        by (simp add: c3_def raw)
      moreover from j have "j = ?n + ?b - 1 \<longleftrightarrow> \<not> j + 1 < ?n + ?b"
        by arith
      ultimately show ?thesis
        using 3 by (simp del: of_nat_add of_nat_Suc)
    qed
  qed
  show ?thesis
    using run fields cells
    by (intro exI [of _ "increase_size pol c3"])
      (simp add: increase_size_fields split: Increment_policy.splits)
qed

subsection \<open>Insertion\<close>


lemma put_on_free_list_capacity:
  "put_on_free_list c x = Some c' \<Longrightarrow> capacity_m c' = capacity_m c"
  by (simp add: put_on_free_list_Some)

lemma thread_free_capacity:
  "thread_free c oldcapacity index = Some c' \<Longrightarrow> capacity_m c' = capacity_m c"
proof (induction c oldcapacity index rule: thread_free.induct)
  case (1 c oldcapacity index)
  show ?case
  proof (cases "oldcapacity < index")
    case False
    with 1(2) show ?thesis
      by (subst (asm) thread_free.simps) simp
  next
    case True
    with 1(2) obtain c1 where c1: "put_on_free_list c index = Some c1"
      "thread_free c1 oldcapacity (index - 1) = Some c'"
      by (subst (asm) thread_free.simps) (auto split: option.splits)
    from 1(1) [OF True c1] put_on_free_list_capacity [OF c1(1)] show ?thesis
      by simp
  qed
qed

lemma allocate_new_block_grows:
  assumes "allocate_new_block pol c = Some c'"
  shows "capacity_m c < capacity_m c + block_size c"
proof -
  from assms obtain ys c2 c3 where
    "thread_free (c\<lparr>capacity_m := capacity_m c + block_size c, all_items := Some ys\<rparr>)
       (capacity_m c) (capacity_m c + block_size c - 1) = Some c2"
    and put: "put_on_free_list c2 (capacity_m c) = Some c3"
    by (auto simp: allocate_new_block_def Let_def split: option.splits)
  from thread_free_capacity [OF this(1)] have "capacity_m c2 = capacity_m c + block_size c"
    by simp
  with put show ?thesis
    by (simp add: put_on_free_list_Some)
qed

lemma grows_nowrap:
  fixes x y :: "'w::len word"
  assumes "x < x + y"
  shows "unat x + unat y < 2 ^ LENGTH('w) \<and> y \<noteq> 0"
proof -
  from assms have "x \<le> x + y" by simp
  then have "unat x + unat y < 2 ^ LENGTH('w)"
    by (simp add: no_olen_add_nat)
  moreover from assms have "y \<noteq> 0" by auto
  ultimately show ?thesis ..
qed

lemma emplace_insert: "emplace pol c t = insert_cc pol c t"
  by (simp add: emplace_def insert_cc_def)

lemma insert_cc_Some:
  "insert_cc pol c t = Some (c', i) \<longleftrightarrow>
     (\<exists>c1. (if free_list c = bottom then allocate_new_block pol c else Some c) = Some c1
        \<and> free_list c1 < capacity_m c1 \<and> unat (free_list c1) < length (items c1)
        \<and> i = \<lparr>m_idx = free_list c1\<rparr>
        \<and> c' = c1\<lparr>all_items := Some ((items c1)[unat (free_list c1) := construct t]),
                  free_list := static_get_val (items c1 ! unat (free_list c1)),
                  size_m := size_m c1 + 1\<rparr>)"
proof -
  have a: "assign ((assign d j e)\<lparr>free_list := h\<rparr>) j e' =
      d\<lparr>all_items := Some ((items d)[j' := e']), free_list := h\<rparr>"
    if "unat j < length (items d)" "j' = unat j" for d :: "('a, 'b) Compact_container_with_index_2" and j h e e' j'
    using that all_items_items [OF that(1)] by (simp add: assign_def)
  show ?thesis
    by (cases "if free_list c = bottom then allocate_new_block pol c else Some c")
      (auto simp: insert_cc_def Let_def subscript_items a static_get_val_set_type
        split: option.splits)
qed



lemma chain_upt:
  fixes ys :: "('w::len, 'a) slot list"
  assumes old: "chain ys h fl"
    and new: "\<forall>j. n \<le> j \<and> j < m \<longrightarrow> j < length ys \<and> static_type (ys ! j) = FREE
                \<and> static_get_val (ys ! j) = (if j + 1 < m then of_nat (j + 1) else h)"
    and lt: "k < m" and ge: "n \<le> k"
  shows "chain ys (of_nat k) ([k..<m] @ fl)"
  using lt ge
proof (induction k rule: strict_inc_induct)
  case (base i)
  with new have "i < length ys \<and> static_type (ys ! i) = FREE \<and> static_get_val (ys ! i) = h"
    by auto
  with base old show ?case
    by (simp add: upt_conv_Cons)
next
  case (step i)
  with new have "i < length ys \<and> static_type (ys ! i) = FREE
      \<and> static_get_val (ys ! i) = of_nat (Suc i)"
    by auto
  with step show ?case
    by (simp add: upt_conv_Cons)
qed

lemma allocate_free_list_ok:
  fixes c :: "('w::len, 'a) Compact_container_with_index_2"
  assumes ok: "free_list_ok c fl" and al: "allocate_new_block pol c = Some c1"
    and bound: "capacity_m c1 \<le> bottom"
  shows "free_list_ok c1 ([unat (capacity_m c)..<unat (capacity_m c1)] @ fl)"
    and "unat (capacity_m c) < unat (capacity_m c1)"
    and "free_list c1 = capacity_m c" and "size_m c1 = size_m c"
    and "\<forall>j < unat (capacity_m c).
           static_type (items c1 ! j) = static_type (items c ! j)
           \<and> static_get_val (items c1 ! j) = static_get_val (items c ! j)
           \<and> (static_type (items c ! j) = USED \<longrightarrow> items c1 ! j = items c ! j)"
    and "\<forall>j. unat (capacity_m c) \<le> j \<and> j < unat (capacity_m c1) \<longrightarrow>
           static_type (items c1 ! j) = FREE \<and> payload (items c1 ! j) = None"
proof -
  let ?n = "unat (capacity_m c)"
  let ?b = "unat (block_size c)"
  let ?xs = "items c"
  from ok have len: "length ?xs = ?n" and ch: "chain ?xs (free_list c) fl" and d: "distinct fl"
    by (simp_all add: free_list_ok_def)
  from grows_nowrap [OF allocate_new_block_grows [OF al]]
  have nowrap: "?n + ?b < 2 ^ LENGTH('w)" and bs: "block_size c \<noteq> 0"
    by simp_all
  from allocate_new_block_result [OF len nowrap bs, of pol] al
  have cap: "capacity_m c1 = capacity_m c + block_size c" and sz: "size_m c1 = size_m c"
    and head: "free_list c1 = capacity_m c" and len1: "length (items c1) = ?n + ?b"
    and cells: "\<forall>j < ?n + ?b. items c1 ! j =
          (if j < ?n
           then (if static_type (?xs ! j) = USED then ?xs ! j
                 else static_set_val raw_storage (static_get_val (?xs ! j)) FREE)
           else static_set_val raw_storage
                  (if j + 1 < ?n + ?b then of_nat (j + 1) else free_list c) FREE)"
    by auto
  from nowrap have m: "unat (capacity_m c1) = ?n + ?b"
    by (simp add: cap unat_add_lem)
  from bs have bpos: "0 < ?b"
    by (simp add: unat_gt_0)
  from bound have mb: "?n + ?b \<le> unat (bottom :: 'w word)"
    by (simp add: word_le_nat_alt m)
  show "unat (capacity_m c) < unat (capacity_m c1)"
    using m bpos by simp
  show "free_list c1 = capacity_m c" "size_m c1 = size_m c"
    by (rule head, rule sz)
  have hd_le: "free_list c \<le> bottom"
    by (rule free_list_ok_head [OF ok])
  have old: "static_type (items c1 ! j) = static_type (?xs ! j)
           \<and> static_get_val (items c1 ! j) = static_get_val (?xs ! j)
           \<and> (static_type (?xs ! j) = USED \<longrightarrow> items c1 ! j = ?xs ! j)" if "j < ?n" for j
  proof -
    from cells that have "items c1 ! j =
        (if static_type (?xs ! j) = USED then ?xs ! j
         else static_set_val raw_storage (static_get_val (?xs ! j)) FREE)"
      by simp
    moreover have "static_get_val (?xs ! j) AND bottom = static_get_val (?xs ! j)"
      by (simp add: static_get_val_and and.assoc)
    ultimately show ?thesis
      by (cases "static_type (?xs ! j)")
        (simp_all add: static_type_set_val_FREE static_get_val_set_val)
  qed
  then show "\<forall>j < ?n.
           static_type (items c1 ! j) = static_type (?xs ! j)
           \<and> static_get_val (items c1 ! j) = static_get_val (?xs ! j)
           \<and> (static_type (?xs ! j) = USED \<longrightarrow> items c1 ! j = ?xs ! j)"
    by blast
  have new: "j < length (items c1) \<and> static_type (items c1 ! j) = FREE
      \<and> static_get_val (items c1 ! j) = (if j + 1 < ?n + ?b then of_nat (j + 1) else free_list c)
      \<and> payload (items c1 ! j) = None"
    if "?n \<le> j" "j < ?n + ?b" for j
  proof -
    from cells that have eq: "items c1 ! j = static_set_val raw_storage
          (if j + 1 < ?n + ?b then of_nat (j + 1) else free_list c) FREE"
      by simp
    have "(of_nat (j + 1) :: 'w word) \<le> bottom" if "j + 1 < ?n + ?b"
      using of_nat_unat_le_bottom [OF that mb] by simp
    with hd_le have "(if j + 1 < ?n + ?b then of_nat (j + 1) else free_list c) \<le> bottom"
      by simp
    then have "(if j + 1 < ?n + ?b then of_nat (j + 1) else free_list c) AND bottom
        = (if j + 1 < ?n + ?b then of_nat (j + 1) else free_list c)"
      by (simp only: and_bottom_iff)
    with that(2) show ?thesis
      unfolding eq len1
      by (simp only: static_get_val_set_val static_type_set_val_FREE payload_set_val)
        (simp add: raw_storage_def)
  qed
  then show "\<forall>j. ?n \<le> j \<and> j < unat (capacity_m c1) \<longrightarrow>
           static_type (items c1 ! j) = FREE \<and> payload (items c1 ! j) = None"
    by (simp add: m)
  have mem: "i < ?n" if "i \<in> set fl" for i
    using chain_bounds [OF ch that] len by simp
  have "chain (items c1) (free_list c) fl"
  proof (rule chain_frame [OF ch])
    show "length ?xs \<le> length (items c1)"
      by (simp add: len len1)
    show "\<forall>i\<in>set fl. static_type (items c1 ! i) = static_type (?xs ! i)
        \<and> static_get_val (items c1 ! i) = static_get_val (?xs ! i)"
      using old mem by blast
  qed
  note a = this
  have b: "\<forall>j. ?n \<le> j \<and> j < ?n + ?b \<longrightarrow> j < length (items c1)
      \<and> static_type (items c1 ! j) = FREE
      \<and> static_get_val (items c1 ! j) = (if j + 1 < ?n + ?b then of_nat (j + 1) else free_list c)"
    using new by blast
  have "chain (items c1) (of_nat ?n) ([?n..<?n + ?b] @ fl)"
    by (rule chain_upt [OF a b]) (use bpos in simp_all)
  moreover have "distinct ([?n..<?n + ?b] @ fl)"
    using d mem by (auto dest: mem)
  ultimately show "free_list_ok c1 ([?n..<unat (capacity_m c1)] @ fl)"
    using bound len1 by (simp add: free_list_ok_def m head)
qed



lemma static_type_construct [simp]: "static_type (construct t) = static_type t"
  by (simp add: static_type_def construct_def)

lemma payload_construct [simp]: "payload (construct t) = Some (payload t)"
  by (simp add: construct_def)

lemma free_list_bottom_iff:
  fixes c :: "('w::len, 'a) Compact_container_with_index_2"
  assumes "free_list_ok c fl"
  shows "free_list c = bottom \<longleftrightarrow> fl = []"
proof (cases fl)
  case Nil
  with assms show ?thesis by (simp add: free_list_ok_def)
next
  case (Cons h r)
  with assms have "free_list c = of_nat h" "h < length (items c)"
    "length (items c) \<le> unat (bottom :: 'w word)"
    by (simp_all add: free_list_ok_def word_le_nat_alt)
  with of_nat_unat_le_bottom [of h "length (items c)", where ?'w = 'w] Cons show ?thesis
    by simp
qed

lemma pop_free_list_ok:
  fixes c :: "('w::len, 'a) Compact_container_with_index_2" and e :: "('w, 'a) slot"
  assumes ok: "free_list_ok c (h # r)"
  defines "c' \<equiv> c\<lparr>all_items := Some ((items c)[unat (free_list c) := e]),
                  free_list := static_get_val (items c ! unat (free_list c)),
                  size_m := size_m c + 1\<rparr>"
  shows "unat (free_list c) = h" and "free_list c = of_nat h" and "h < unat (capacity_m c)"
    and "free_list c < capacity_m c"
    and "free_list_ok c' r" and "items c' = (items c)[h := e]"
proof -
  from ok have len: "length (items c) = unat (capacity_m c)" and cap: "capacity_m c \<le> bottom"
    and hd: "free_list c = of_nat h" and h: "h < length (items c)"
    and ch: "chain (items c) (static_get_val (items c ! h)) r" and d: "h \<notin> set r" "distinct r"
    by (simp_all add: free_list_ok_def)
  from h len have u: "unat (of_nat h :: 'w word) = h"
    by (simp add: unat_of_nat_lt)
  show "unat (free_list c) = h" "free_list c = of_nat h"
    by (simp_all add: hd u)
  show "h < unat (capacity_m c)"
    using h len by simp
  then show "free_list c < capacity_m c"
    by (simp add: hd word_less_nat_alt u)
  show "items c' = (items c)[h := e]"
    by (simp add: c'_def hd u)
  have "chain ((items c)[h := e]) (static_get_val (items c ! h)) r"
    by (rule chain_update [OF ch d(1)])
  with len cap d(2) show "free_list_ok c' r"
    by (simp add: free_list_ok_def c'_def hd u)
qed



lemma insert_step:
  fixes c :: "('w::len, 'a) Compact_container_with_index_2"
  assumes ok: "free_list_ok c fl" and ins: "insert_cc pol c t = Some (c', i)"
    and bound: "capacity_m c' \<le> bottom"
  shows "unat (m_idx i) = (case fl of [] \<Rightarrow> unat (capacity_m c) | h # r \<Rightarrow> h)"
    and "m_idx i = of_nat (case fl of [] \<Rightarrow> unat (capacity_m c) | h # r \<Rightarrow> h)"
    and "free_list_ok c'
           (case fl of [] \<Rightarrow> [Suc (unat (capacity_m c))..<unat (capacity_m c')] | h # r \<Rightarrow> r)"
    and "size_m c' = size_m c + 1"
    and "unat (m_idx i) < unat (capacity_m c')"
    and "items c' ! unat (m_idx i) = construct t"
    and "unat (capacity_m c) \<le> unat (capacity_m c')"
    and "fl \<noteq> [] \<Longrightarrow> capacity_m c' = capacity_m c"
    and "fl = [] \<Longrightarrow> unat (capacity_m c) < unat (capacity_m c')"
    and "\<forall>j < unat (capacity_m c). j \<noteq> unat (m_idx i) \<longrightarrow>
           static_type (items c' ! j) = static_type (items c ! j)
           \<and> static_get_val (items c' ! j) = static_get_val (items c ! j)
           \<and> (static_type (items c ! j) = USED \<longrightarrow> items c' ! j = items c ! j)"
    and "\<forall>j. unat (capacity_m c) \<le> j \<and> j < unat (capacity_m c') \<and> j \<noteq> unat (m_idx i) \<longrightarrow>
           static_type (items c' ! j) = FREE"
proof -
  let ?n = "unat (capacity_m c)"
  from ins obtain c1 where
    c1: "(if free_list c = bottom then allocate_new_block pol c else Some c) = Some c1"
    and i: "i = \<lparr>m_idx = free_list c1\<rparr>"
    and c': "c' = c1\<lparr>all_items := Some ((items c1)[unat (free_list c1) := construct t]),
                  free_list := static_get_val (items c1 ! unat (free_list c1)),
                  size_m := size_m c1 + 1\<rparr>"
    unfolding insert_cc_Some by blast
  have cap': "capacity_m c' = capacity_m c1"
    by (simp add: c')
  define h where "h = (case fl of [] \<Rightarrow> ?n | h # r \<Rightarrow> h)"
  define r where "r = (case fl of [] \<Rightarrow> [Suc ?n..<unat (capacity_m c')] | h # r \<Rightarrow> r)"
  have all1: "free_list_ok c1 (h # r) \<and> size_m c1 = size_m c
      \<and> ?n \<le> unat (capacity_m c1) \<and> (fl \<noteq> [] \<longrightarrow> capacity_m c1 = capacity_m c)
      \<and> (fl = [] \<longrightarrow> ?n < unat (capacity_m c1))
      \<and> (\<forall>j < ?n.
           static_type (items c1 ! j) = static_type (items c ! j)
           \<and> static_get_val (items c1 ! j) = static_get_val (items c ! j)
           \<and> (static_type (items c ! j) = USED \<longrightarrow> items c1 ! j = items c ! j))
      \<and> (\<forall>j. ?n \<le> j \<and> j < unat (capacity_m c1) \<longrightarrow> static_type (items c1 ! j) = FREE)"
    proof (cases fl)
      case (Cons a list)
      with free_list_bottom_iff [OF ok] c1 have "c1 = c"
        by simp
      with Cons ok show ?thesis
        by (auto simp: h_def r_def)
    next
      case Nil
      with free_list_bottom_iff [OF ok] c1 have al: "allocate_new_block pol c = Some c1"
        by simp
      from bound have b1: "capacity_m c1 \<le> bottom"
        by (simp add: cap')
      note facts = allocate_free_list_ok [OF ok al b1]
      from facts(2) have "[?n..<unat (capacity_m c1)] = ?n # [Suc ?n..<unat (capacity_m c1)]"
        by (simp add: upt_conv_Cons)
      with facts(1) Nil have "free_list_ok c1 (h # r)"
        by (simp add: h_def r_def cap')
      with facts(2,4,5,6) Nil show ?thesis
        by simp
    qed
  from all1 have ok1: "free_list_ok c1 (h # r)"
    and size1: "size_m c1 = size_m c"
    and grow: "?n \<le> unat (capacity_m c1)" "fl \<noteq> [] \<longrightarrow> capacity_m c1 = capacity_m c"
      "fl = [] \<longrightarrow> ?n < unat (capacity_m c1)"
    and old: "\<forall>j < ?n.
           static_type (items c1 ! j) = static_type (items c ! j)
           \<and> static_get_val (items c1 ! j) = static_get_val (items c ! j)
           \<and> (static_type (items c ! j) = USED \<longrightarrow> items c1 ! j = items c ! j)"
    and new: "\<forall>j. ?n \<le> j \<and> j < unat (capacity_m c1) \<longrightarrow> static_type (items c1 ! j) = FREE"
    by blast+
  note pop = pop_free_list_ok(1-4) [OF ok1]
  note pop5 = pop_free_list_ok(5) [OF ok1, of "construct t"]
  note pop6 = pop_free_list_ok(6) [OF ok1, of "construct t"]
  have items': "items c' = (items c1)[h := construct t]"
    using pop6 by (simp add: c' pop(1))
  from ok1 have len1: "length (items c1) = unat (capacity_m c1)"
    by (simp add: free_list_ok_def)
  show "unat (m_idx i) = (case fl of [] \<Rightarrow> ?n | h # r \<Rightarrow> h)"
    using pop(1) by (simp add: i h_def)
  show "m_idx i = of_nat (case fl of [] \<Rightarrow> ?n | h # r \<Rightarrow> h)"
    using pop(2) by (simp add: i h_def)
  show "free_list_ok c'
           (case fl of [] \<Rightarrow> [Suc ?n..<unat (capacity_m c')] | h # r \<Rightarrow> r)"
    using pop5 by (simp add: c' r_def)
  show "size_m c' = size_m c + 1"
    by (simp add: c' size1)
  show "unat (m_idx i) < unat (capacity_m c')"
    using pop(1,3) by (simp add: i cap')
  show "items c' ! unat (m_idx i) = construct t"
    using pop(1,3) len1 by (simp add: i items')
  show "?n \<le> unat (capacity_m c')"
    using grow(1) by (simp add: cap')
  show "fl \<noteq> [] \<Longrightarrow> capacity_m c' = capacity_m c"
    using grow(2) by (simp add: cap')
  show "fl = [] \<Longrightarrow> ?n < unat (capacity_m c')"
    using grow(3) by (simp add: cap')
  show "\<forall>j < ?n. j \<noteq> unat (m_idx i) \<longrightarrow>
           static_type (items c' ! j) = static_type (items c ! j)
           \<and> static_get_val (items c' ! j) = static_get_val (items c ! j)
           \<and> (static_type (items c ! j) = USED \<longrightarrow> items c' ! j = items c ! j)"
    using old pop(1) by (simp add: i items')
  show "\<forall>j. ?n \<le> j \<and> j < unat (capacity_m c') \<and> j \<noteq> unat (m_idx i) \<longrightarrow>
           static_type (items c' ! j) = FREE"
    using new pop(1) by (simp add: i items' cap')
qed



lemma insert_cc_inv:
  fixes c :: "('w::len, 'a) Compact_container_with_index_2"
  assumes inv: "cc_inv c fl" and ins: "insert_cc pol c t = Some (c', i)"
    and bound: "capacity_m c' \<le> bottom" and used: "static_type t = USED"
  shows "cc_inv c'
           (case fl of [] \<Rightarrow> [Suc (unat (capacity_m c))..<unat (capacity_m c')] | h # r \<Rightarrow> r)"
proof -
  let ?n = "unat (capacity_m c)" and ?m = "unat (capacity_m c')"
  let ?k = "unat (m_idx i)"
  let ?fl' = "case fl of [] \<Rightarrow> [Suc ?n..<?m] | h # r \<Rightarrow> r"
  from inv have ok: "free_list_ok c fl"
    and free: "\<forall>j < length (items c). static_type (items c ! j) = FREE \<longrightarrow> j \<in> set fl"
    and sz: "unat (size_m c) + length fl = length (items c)"
    by (simp_all add: cc_inv_def)
  note st = insert_step [OF ok ins bound]
  from ok have len: "length (items c) = ?n"
    by (simp add: free_list_ok_def)
  from st(3) have len': "length (items c') = ?m"
    by (simp add: free_list_ok_def)
  have free': "j \<in> set ?fl'" if j: "j < ?m" and f: "static_type (items c' ! j) = FREE" for j
  proof -
    from f st(6) used have ne: "j \<noteq> ?k"
      by auto
    show ?thesis
    proof (cases "j < ?n")
      case True
      with st(10) ne f have "static_type (items c ! j) = FREE"
        by simp
      with free True len have "j \<in> set fl"
        by simp
      with ne st(1) show ?thesis
        by (cases fl) auto
    next
      case False
      with j st(8) have "fl = []"
        by (cases fl) auto
      with False j ne st(1) show ?thesis
        by simp
    qed
  qed
  have "unat (size_m c) < ?m"
    using sz len st(7,9) by (cases fl) auto
  then have "size_m c < capacity_m c'"
    by (simp add: word_less_nat_alt)
  then have inc: "unat (size_m c + 1) = unat (size_m c) + 1"
    by unat_arith
  have "unat (size_m c') + length ?fl' = ?m"
  proof (cases fl)
    case Nil
    with sz len st(9) show ?thesis
      by (simp add: st(4) inc)
  next
    case (Cons h r)
    with sz len st(8) show ?thesis
      by (simp add: st(4) inc)
  qed
  with st(3) free' len' show ?thesis
    unfolding cc_inv_def by simp
qed

lemma allocate_new_block_capacity:
  assumes "allocate_new_block pol c = Some c'"
  shows "capacity_m c' = capacity_m c + block_size c"
proof -
  from assms obtain ys c2 c3 where
    "thread_free (c\<lparr>capacity_m := capacity_m c + block_size c, all_items := Some ys\<rparr>)
       (capacity_m c) (capacity_m c + block_size c - 1) = Some c2"
    and put: "put_on_free_list c2 (capacity_m c) = Some c3"
    and c': "c' = increase_size pol c3"
    by (auto simp: allocate_new_block_def Let_def split: option.splits)
  from thread_free_capacity [OF this(1)] put_on_free_list_capacity [OF put] show ?thesis
    by (simp add: c' increase_size_fields)
qed

lemma insert_cc_capacity_mono:
  assumes "insert_cc pol c t = Some (c', i)"
  shows "capacity_m c \<le> capacity_m c'"
proof -
  from assms obtain c1 where
    c1: "(if free_list c = bottom then allocate_new_block pol c else Some c) = Some c1"
    and "capacity_m c' = capacity_m c1"
    unfolding insert_cc_Some by auto
  moreover have "capacity_m c \<le> capacity_m c1"
  proof (cases "free_list c = bottom")
    case True
    with c1 have al: "allocate_new_block pol c = Some c1"
      by simp
    from allocate_new_block_grows [OF al] allocate_new_block_capacity [OF al] show ?thesis
      by simp
  next
    case False
    with c1 show ?thesis by simp
  qed
  ultimately show ?thesis by simp
qed

lemma erase_capacity: "erase c x = Some c' \<Longrightarrow> capacity_m c' = capacity_m c"
  by (simp add: erase_Some_iff)

lemma apply_operation_capacity_mono:
  "apply_operation pol c x = Some c' \<Longrightarrow> capacity_m c \<le> capacity_m c'"
  by (cases x) (auto simp: emplace_insert erase_capacity dest: insert_cc_capacity_mono)

lemma run_capacity_mono:
  "run pol c xs = Some c' \<Longrightarrow> capacity_m c \<le> capacity_m c'"
proof (induction xs arbitrary: c)
  case Nil
  then show ?case by simp
next
  case (Cons x xs)
  then obtain c1 where "apply_operation pol c x = Some c1" "run pol c1 xs = Some c'"
    by (auto split: option.splits)
  with Cons.IH [of c1] apply_operation_capacity_mono [of pol c x c1] show ?case
    by simp
qed

subsection \<open>Iteration\<close>


lemma Type_not_USED [simp]: "t \<noteq> USED \<longleftrightarrow> t = FREE"
  by (cases t) simp_all

lemma used_count:
  fixes c :: "('w::len, 'a) Compact_container_with_index_2"
  assumes "cc_inv c fl"
  shows "length (used_indices c) = unat (size_m c)"
proof -
  let ?xs = "items c"
  let ?P = "\<lambda>i. static_type (?xs ! i) = USED"
  from assms have ch: "chain ?xs (free_list c) fl" and d: "distinct fl"
    and free: "\<forall>j < length ?xs. static_type (?xs ! j) = FREE \<longrightarrow> j \<in> set fl"
    and sz: "unat (size_m c) + length fl = length ?xs"
    by (simp_all add: cc_inv_def free_list_ok_def)
  have "set (filter (\<lambda>i. \<not> ?P i) [0..<length ?xs]) = set fl"
    using free chain_bounds [OF ch] by auto
  then have "card (set (filter (\<lambda>i. \<not> ?P i) [0..<length ?xs])) = card (set fl)"
    by (rule arg_cong)
  moreover have "card (set (filter (\<lambda>i. \<not> ?P i) [0..<length ?xs]))
      = length (filter (\<lambda>i. \<not> ?P i) [0..<length ?xs])"
    by (rule distinct_card) simp
  moreover have "card (set fl) = length fl"
    by (rule distinct_card [OF d])
  ultimately have "length (filter (\<lambda>i. \<not> ?P i) [0..<length ?xs]) = length fl"
    by simp
  moreover have "length (filter ?P [0..<length ?xs]) + length (filter (\<lambda>i. \<not> ?P i) [0..<length ?xs])
      = length ?xs"
    using sum_length_filter_compl [of ?P "[0..<length ?xs]"] by simp
  ultimately show ?thesis
    using sz by (simp add: used_indices_def)
qed

lemma filter_upt_skip:
  assumes "a \<le> b" "b \<le> n" "\<forall>k. a \<le> k \<and> k < b \<longrightarrow> \<not> P k"
  shows "filter P [a..<n] = filter P [b..<n]"
proof -
  from assms(1,2) have "[a..<n] = [a..<b] @ [b..<n]"
    by (metis le_Suc_ex upt_add_eq_append)
  moreover from assms(3) have "filter P [a..<b] = []"
    by (simp add: filter_empty_conv)
  ultimately show ?thesis by simp
qed

lemma increment_loop_spec:
  fixes c :: "('w::len, 'a) Compact_container_with_index_2"
  assumes "length (items c) = unat (capacity_m c)" and "i < capacity_m c"
  shows "\<exists>j. increment_loop c i = Some j \<and> unat i < unat j \<and> unat j \<le> unat (capacity_m c)
     \<and> (unat j < unat (capacity_m c) \<longrightarrow> static_type (items c ! unat j) = USED)
     \<and> (\<forall>k. unat i < k \<and> k < unat j \<longrightarrow> static_type (items c ! k) \<noteq> USED)"
  using assms
proof (induction c i rule: increment_loop.induct)
  case (1 c i)
  from 1(3) have suc: "unat (i + 1) = unat i + 1" and le: "i + 1 \<le> capacity_m c"
    by unat_arith+
  from le have le': "unat i + 1 \<le> unat (capacity_m c)"
    by (simp add: word_le_nat_alt suc)
  show ?case
  proof (cases "i + 1 < capacity_m c")
    case False
    with le have "unat (i + 1) = unat (capacity_m c)"
      by (simp add: word_less_nat_alt word_le_nat_alt)
    with False suc show ?thesis
      by (subst increment_loop.simps) auto
  next
    case True
    then have lt: "unat (i + 1) < length (items c)"
      using 1(2) by (simp add: word_less_nat_alt)
    define u where "u = (static_type (items c ! unat (i + 1)) = USED)"
    have used: "is_used c (i + 1) = Some u"
      using True lt by (simp add: is_used_items u_def)
    show ?thesis
    proof (cases u)
      case True
      with used \<open>i + 1 < capacity_m c\<close> suc le' show ?thesis
        by (subst increment_loop.simps) (auto simp: u_def)
    next
      case False
      from 1(1) [OF \<open>i + 1 < capacity_m c\<close> used False 1(2) \<open>i + 1 < capacity_m c\<close>]
      obtain j where j: "increment_loop c (i + 1) = Some j" "unat (i + 1) < unat j"
        "unat j \<le> unat (capacity_m c)"
        "unat j < unat (capacity_m c) \<longrightarrow> static_type (items c ! unat j) = USED"
        "\<forall>k. unat (i + 1) < k \<and> k < unat j \<longrightarrow> static_type (items c ! k) \<noteq> USED"
        by blast
      have "increment_loop c i = Some j"
        using \<open>i + 1 < capacity_m c\<close> used False j(1) by (subst increment_loop.simps) simp
      moreover have "static_type (items c ! k) \<noteq> USED" if "unat i < k" "k < unat j" for k
      proof (cases "k = unat (i + 1)")
        case True
        with False show ?thesis by (simp add: u_def)
      next
        case False
        with that suc j(5) show ?thesis by simp
      qed
      ultimately show ?thesis
        using j(2,3,4) suc by auto
    qed
  qed
qed



lemma visit_from_spec:
  fixes c :: "('w::len, 'a) Compact_container_with_index_2"
  assumes len: "length (items c) = unat (capacity_m c)"
    and k: "k \<le> unat (capacity_m c)"
    and u: "k < unat (capacity_m c) \<longrightarrow> static_type (items c ! k) = USED"
  shows "visit_from this c (index_to this (of_nat k)) =
     Some (map (\<lambda>j. index_to this (of_nat j))
            (filter (\<lambda>j. static_type (items c ! j) = USED) [k ..< unat (capacity_m c)]))"
  using k u
proof (induction "unat (capacity_m c) - k" arbitrary: k rule: less_induct)
  case less
  let ?n = "unat (capacity_m c)"
  let ?P = "\<lambda>j. static_type (items c ! j) = USED"
  have uk: "unat (of_nat k :: 'w word) = k"
    by (rule unat_of_nat_le [OF less(2)])
  show ?case
  proof (cases "k = ?n")
    case True
    then have "index_to this (of_nat k) = end_cc this c"
      by (simp add: index_to_def end_cc_def)
    with True show ?thesis
      by (subst visit_from.simps) simp
  next
    case False
    with less(2) have lt: "k < ?n"
      by simp
    then have wlt: "(of_nat k :: 'w word) < capacity_m c"
      by (simp add: word_less_nat_alt uk)
    from False uk have ne: "index_to this (of_nat k) \<noteq> end_cc this c"
      by (auto simp: index_to_def end_cc_def)
    from increment_loop_spec [OF len wlt]
    obtain j where j: "increment_loop c (of_nat k) = Some j" "k < unat j" "unat j \<le> ?n"
      "unat j < ?n \<longrightarrow> ?P (unat j)" "\<forall>i. k < i \<and> i < unat j \<longrightarrow> \<not> ?P i"
      unfolding uk by blast
    have inc: "increment c (index_to this (of_nat k)) = Some (index_to this (of_nat (unat j)))"
      using wlt j(1) by (simp add: increment_def index_to_def)
    from j(2) lt have "?n - unat j < ?n - k"
      by arith
    from less(1) [OF this j(3,4)]
    have rest: "visit_from this c (index_to this (of_nat (unat j))) =
        Some (map (\<lambda>j. index_to this (of_nat j)) (filter ?P [unat j..<?n]))" .
    have "filter ?P [k..<?n] = k # filter ?P [Suc k..<?n]"
      using lt less(3) by (simp add: upt_conv_Cons)
    also have "filter ?P [Suc k..<?n] = filter ?P [unat j..<?n]"
      using j(2,3,5) by (intro filter_upt_skip) auto
    finally have "filter ?P [k..<?n] = k # filter ?P [unat j..<?n]" .
    with ne inc rest show ?thesis
      by (subst visit_from.simps) simp
  qed
qed

lemma forward_iteration_sized:
  fixes c :: "('w::len, 'a) Compact_container_with_index_2"
  assumes len: "length (items c) = unat (capacity_m c)"
    and none: "size_m c = 0 \<longrightarrow> used_indices c = []"
    and some: "size_m c \<noteq> 0 \<longrightarrow> 0 < unat (capacity_m c)"
  shows "forward_iteration this c = Some (map (\<lambda>j. index_to this (of_nat j)) (used_indices c))"
proof -
  let ?n = "unat (capacity_m c)"
  let ?P = "\<lambda>j. static_type (items c ! j) = USED"
  have used: "used_indices c = filter ?P [0..<?n]"
    by (simp add: used_indices_def len)
  show ?thesis
  proof (cases "size_m c = 0")
    case True
    with none have "used_indices c = []"
      by simp
    moreover have "visit_from this c (end_cc this c) = Some []"
      by (subst visit_from.simps) simp
    ultimately show ?thesis
      using True by (simp add: forward_iteration_def begin_cc_def empty_cc_def)
  next
    case False
    with some have pos: "0 < ?n"
      by simp
    then have z: "(0 :: 'w word) < capacity_m c"
      by (simp add: word_less_nat_alt)
    show ?thesis
    proof (cases "?P 0")
      case True
      with pos len z False have "begin_cc this c = Some (index_to this (of_nat 0))"
        by (simp add: begin_cc_def empty_cc_def is_used_items index_to_def)
      moreover from True have "visit_from this c (index_to this (of_nat 0)) =
          Some (map (\<lambda>j. index_to this (of_nat j)) (filter ?P [0..<?n]))"
        by (intro visit_from_spec [OF len]) simp_all
      ultimately show ?thesis
        by (simp add: forward_iteration_def used)
    next
      case no: False
      from increment_loop_spec [OF len z]
      obtain j where j: "increment_loop c 0 = Some j" "0 < unat j" "unat j \<le> ?n"
        "unat j < ?n \<longrightarrow> ?P (unat j)" "\<forall>i. 0 < i \<and> i < unat j \<longrightarrow> \<not> ?P i"
        by auto
      from no pos len z False j(1)
      have "begin_cc this c = Some (index_to this (of_nat (unat j)))"
        by (simp add: begin_cc_def empty_cc_def is_used_items increment_def index_to_def)
      moreover have "visit_from this c (index_to this (of_nat (unat j))) =
          Some (map (\<lambda>j. index_to this (of_nat j)) (filter ?P [unat j..<?n]))"
        by (rule visit_from_spec [OF len j(3,4)])
      moreover have "filter ?P [0..<?n] = filter ?P [unat j..<?n]"
      proof (rule filter_upt_skip)
        show "\<forall>k. 0 \<le> k \<and> k < unat j \<longrightarrow> \<not> ?P k"
        proof (intro allI impI)
          fix k assume "0 \<le> k \<and> k < unat j"
          with no j(5) show "\<not> ?P k"
            by (cases "k = 0") auto
        qed
      qed (use j(3) in simp_all)
      ultimately show ?thesis
        by (simp add: forward_iteration_def used)
    qed
  qed
qed

lemma forward_iteration_spec:
  fixes c :: "('w::len, 'a) Compact_container_with_index_2"
  assumes inv: "cc_inv c fl"
  shows "forward_iteration this c = Some (map (\<lambda>j. index_to this (of_nat j)) (used_indices c))"
proof (rule forward_iteration_sized)
  from inv show len: "length (items c) = unat (capacity_m c)"
    by (simp add: cc_inv_def free_list_ok_def)
  note cnt = used_count [OF inv]
  show "size_m c = 0 \<longrightarrow> used_indices c = []"
  proof
    assume "size_m c = 0"
    with cnt have "length (used_indices c) = 0"
      by simp
    then show "used_indices c = []"
      by simp
  qed
  show "size_m c \<noteq> 0 \<longrightarrow> 0 < unat (capacity_m c)"
  proof
    assume "size_m c \<noteq> 0"
    with cnt have "used_indices c \<noteq> []"
      by (auto simp: unat_eq_0)
    then show "0 < unat (capacity_m c)"
      unfolding used_indices_def len by (cases "unat (capacity_m c) = 0") simp_all
  qed
qed

subsection \<open>Sequences of operations\<close>


lemma cc_inv_init: "cc_inv (init pol) []"
  by (simp add: cc_inv_def free_list_ok_def init_def items_def)

lemma apply_operation_cc_inv:
  fixes c :: "('w::len, 'a) Compact_container_with_index_2"
  assumes "cc_inv c fl" and "apply_operation pol c x = Some c'"
    and "capacity_m c' \<le> bottom" and "well_tagged x"
  shows "\<exists>fl'. cc_inv c' fl'"
proof (cases x)
  case (Insert t)
  with assms obtain i where "insert_cc pol c t = Some (c', i)" "static_type t = USED"
    by auto
  from insert_cc_inv [OF assms(1) this(1) assms(3) this(2)] show ?thesis ..
next
  case (Emplace t)
  with assms obtain i where "insert_cc pol c t = Some (c', i)" "static_type t = USED"
    by (auto simp: emplace_insert)
  from insert_cc_inv [OF assms(1) this(1) assms(3) this(2)] show ?thesis ..
next
  case (Erase i)
  with assms have "erase c i = Some c'"
    by simp
  from erase_cc_inv [OF assms(1) this] show ?thesis
    by blast
qed

lemma run_append:
  "run pol c (xs @ ys) = (case run pol c xs of None \<Rightarrow> None | Some d \<Rightarrow> run pol d ys)"
  by (induction xs arbitrary: c) (auto split: option.splits)

lemma run_cc_inv:
  fixes c :: "('w::len, 'a) Compact_container_with_index_2"
  assumes "cc_inv c fl" and "run pol c xs = Some c'"
    and "capacity_m c' \<le> bottom" and "\<forall>x \<in> set xs. well_tagged x"
  shows "\<exists>fl'. cc_inv c' fl'"
  using assms
proof (induction xs arbitrary: c fl)
  case Nil
  then show ?case by auto
next
  case (Cons x xs)
  from Cons.prems(2) obtain d where d: "apply_operation pol c x = Some d" "run pol d xs = Some c'"
    by (auto split: option.splits)
  from run_capacity_mono [OF d(2)] Cons.prems(3) have "capacity_m d \<le> bottom"
    by (rule order_trans)
  from apply_operation_cc_inv [OF Cons.prems(1) d(1) this] Cons.prems(4)
  obtain fl1 where "cc_inv d fl1"
    by auto
  from Cons.IH [OF this d(2) Cons.prems(3)] Cons.prems(4) show ?case
    by simp
qed

lemma run_prefix:
  fixes c :: "('w::len, 'a) Compact_container_with_index_2"
  assumes "run pol c xs = Some c'"
  shows "\<exists>d. run pol c (take n xs) = Some d \<and> capacity_m d \<le> capacity_m c'"
proof -
  have "run pol c (take n xs @ drop n xs) = Some c'"
    using assms by simp
  then obtain d where d: "run pol c (take n xs) = Some d" "run pol d (drop n xs) = Some c'"
    unfolding run_append by (auto split: option.splits)
  from run_capacity_mono [OF d(2)] d(1) show ?thesis
    by blast
qed

subsection \<open>Filling a fresh container\<close>


lemma insert_total:
  fixes c :: "('w::len, 'a) Compact_container_with_index_2"
  assumes ok: "free_list_ok c fl"
    and grow: "fl = [] \<longrightarrow> block_size c \<noteq> 0
                 \<and> unat (capacity_m c) + unat (block_size c) \<le> unat (bottom :: 'w word)"
  shows "\<exists>c' i. insert_cc pol c t = Some (c', i) \<and> capacity_m c' \<le> bottom
     \<and> unat (capacity_m c') =
         (if fl = [] then unat (capacity_m c) + unat (block_size c) else unat (capacity_m c))
     \<and> block_size c' =
         (if fl = [] then
            (case pol of Multiply_by_two_policy_for_cc_with_size k \<Rightarrow> capacity_m c + block_size c
             | Constant_size_policy_for_cc_with_size k \<Rightarrow> block_size c)
          else block_size c)"
proof (cases fl)
  case (Cons h r)
  with ok have ne: "free_list c \<noteq> bottom"
    using free_list_bottom_iff [OF ok] by simp
  from ok Cons have "free_list_ok c (h # r)"
    by simp
  note pop = pop_free_list_ok(1-4) [OF this]
  from ok have len: "length (items c) = unat (capacity_m c)" and cap: "capacity_m c \<le> bottom"
    by (simp_all add: free_list_ok_def)
  define c' where "c' = c\<lparr>all_items := Some ((items c)[unat (free_list c) := construct t]),
                  free_list := static_get_val (items c ! unat (free_list c)),
                  size_m := size_m c + 1\<rparr>"
  have "insert_cc pol c t = Some (c', \<lparr>m_idx = free_list c\<rparr>)"
    unfolding insert_cc_Some using ne pop len by (simp add: c'_def)
  moreover have "capacity_m c' = capacity_m c" "block_size c' = block_size c"
    by (simp_all add: c'_def)
  ultimately show ?thesis
    using Cons cap by auto
next
  case Nil
  let ?n = "unat (capacity_m c)" and ?b = "unat (block_size c)"
  from ok Nil have hd: "free_list c = bottom"
    using free_list_bottom_iff [OF ok] by simp
  from ok have len: "length (items c) = ?n"
    by (simp add: free_list_ok_def)
  from grow Nil have bs: "block_size c \<noteq> 0" and le: "?n + ?b \<le> unat (bottom :: 'w word)"
    by simp_all
  have "unat (bottom :: 'w word) < 2 ^ LENGTH('w)"
    by simp
  with le have nowrap: "?n + ?b < 2 ^ LENGTH('w)"
    by (rule order_le_less_trans)
  from allocate_new_block_result [OF len nowrap bs, of pol]
  obtain c1 where c1: "allocate_new_block pol c = Some c1"
    "capacity_m c1 = capacity_m c + block_size c"
    "block_size c1 =
         (case pol of Multiply_by_two_policy_for_cc_with_size k \<Rightarrow> capacity_m c + block_size c
          | Constant_size_policy_for_cc_with_size k \<Rightarrow> block_size c)"
    "free_list c1 = capacity_m c" "length (items c1) = ?n + ?b"
    by blast
  from nowrap have m: "unat (capacity_m c1) = ?n + ?b"
    by (simp add: c1(2) unat_add_lem)
  from bs have "0 < ?b"
    by (simp add: unat_gt_0)
  with m have lt: "free_list c1 < capacity_m c1"
    by (simp add: c1(4) word_less_nat_alt)
  define c' where "c' = c1\<lparr>all_items := Some ((items c1)[unat (free_list c1) := construct t]),
                  free_list := static_get_val (items c1 ! unat (free_list c1)),
                  size_m := size_m c1 + 1\<rparr>"
  have "insert_cc pol c t = Some (c', \<lparr>m_idx = free_list c1\<rparr>)"
    unfolding insert_cc_Some using hd c1(1,5) lt m
    by (simp add: c'_def word_less_nat_alt)
  moreover have "capacity_m c' = capacity_m c1" "block_size c' = block_size c1"
    by (simp_all add: c'_def)
  moreover have "capacity_m c1 \<le> bottom"
    using le by (simp add: word_le_nat_alt m)
  ultimately show ?thesis
    using Nil m c1(3) by auto
qed

lemma grown_mono: "fst (grown pol n) \<le> fst (grown pol (n + k))"
proof (induction k)
  case 0
  show ?case by simp
next
  case (Suc k)
  have "fst (grown pol (n + k)) \<le> fst (grown pol (Suc (n + k)))"
    by (simp split: prod.splits)
  with Suc show ?case by simp
qed

lemma grown_block_pos: "0 < first_block_size pol \<Longrightarrow> 0 < snd (grown pol n)"
  by (induction n) (auto split: prod.splits Increment_policy.splits)

lemma grown_ge: "0 < first_block_size pol \<Longrightarrow> n \<le> fst (grown pol n)"
proof (induction n)
  case 0
  show ?case by simp
next
  case (Suc n)
  from grown_block_pos [OF Suc.prems, of n] Suc show ?case
    by (auto split: prod.splits)
qed



lemma insert_range_fill:
  fixes c :: "('w::len, 'a) Compact_container_with_index_2"
  assumes ok: "free_list_ok c [j..<unat (capacity_m c)]"
    and jle: "j \<le> unat (capacity_m c)"
    and C: "unat (capacity_m c) = fst (grown pol j)"
    and B: "unat (block_size c) = snd (grown pol j)"
    and k0: "0 < first_block_size pol"
    and fit: "fst (grown pol (j + length ts)) \<le> unat (bottom :: 'w word)"
  shows "\<exists>c'. insert_range pol c ts =
            Some (c', map (\<lambda>i. \<lparr>m_idx = of_nat i\<rparr>) [j..<j + length ts])
      \<and> free_list_ok c' [j + length ts..<unat (capacity_m c')]
      \<and> j + length ts \<le> unat (capacity_m c')
      \<and> unat (capacity_m c') = fst (grown pol (j + length ts))
      \<and> unat (block_size c') = snd (grown pol (j + length ts))
      \<and> (cc_inv c [j..<unat (capacity_m c)] \<and> (\<forall>t \<in> set ts. static_type t = USED)
           \<longrightarrow> cc_inv c' [j + length ts..<unat (capacity_m c')])"
  using ok jle C B fit
proof (induction ts arbitrary: c j)
  case Nil
  then show ?case by simp
next
  case (Cons t ts)
  let ?C = "unat (capacity_m c)" and ?B = "unat (block_size c)"
  let ?fl = "[j..<?C]"
  have empty: "?fl = [] \<longleftrightarrow> j = ?C"
    using Cons.prems(2) by auto
  have step: "fst (grown pol (Suc j)) \<le> unat (bottom :: 'w word)"
    using grown_mono [of pol "Suc j" "length ts"] Cons.prems(5) by simp
  have bpos: "0 < ?B"
    using grown_block_pos [OF k0, of j] Cons.prems(4) by simp
  have g: "grown pol (Suc j) =
      (if j = ?C then
         (?C + ?B, case pol of Multiply_by_two_policy_for_cc_with_size k \<Rightarrow> ?C + ?B
                   | Constant_size_policy_for_cc_with_size k \<Rightarrow> ?B)
       else (?C, ?B))"
    using Cons.prems(3,4) by (cases "grown pol j"; cases pol) auto
  have grow: "?fl = [] \<longrightarrow> block_size c \<noteq> 0 \<and> ?C + ?B \<le> unat (bottom :: 'w word)"
    using bpos step g empty by auto
  from insert_total [OF Cons.prems(1) grow, of pol t]
  obtain c1 i where ins: "insert_cc pol c t = Some (c1, i)" and b1: "capacity_m c1 \<le> bottom"
    and C1: "unat (capacity_m c1) = (if ?fl = [] then ?C + ?B else ?C)"
    and B1: "block_size c1 =
         (if ?fl = [] then
            (case pol of Multiply_by_two_policy_for_cc_with_size k \<Rightarrow> capacity_m c + block_size c
             | Constant_size_policy_for_cc_with_size k \<Rightarrow> block_size c)
          else block_size c)"
    by blast
  note st = insert_step [OF Cons.prems(1) ins b1]
  have idx: "unat (m_idx i) = j"
    using st(1) empty Cons.prems(2) by (cases "j = ?C") (simp_all add: upt_conv_Cons)
  have i: "i = \<lparr>m_idx = of_nat j\<rparr>"
    using idx by (cases i) auto
  have fl1: "(case ?fl of [] \<Rightarrow> [Suc ?C..<unat (capacity_m c1)] | h # r \<Rightarrow> r)
      = [Suc j..<unat (capacity_m c1)]"
    using empty Cons.prems(2) C1 by (cases "j = ?C") (simp_all add: upt_conv_Cons)
  have ok1: "free_list_ok c1 [Suc j..<unat (capacity_m c1)]"
    using st(3) unfolding fl1 .
  have jle1: "Suc j \<le> unat (capacity_m c1)"
    using st(5) idx by simp
  have gC: "unat (capacity_m c1) = fst (grown pol (Suc j))"
    using C1 empty g by auto
  have "unat (capacity_m c + block_size c) = ?C + ?B" if "j = ?C"
  proof -
    from that step g have "?C + ?B \<le> unat (bottom :: 'w word)"
      by simp
    moreover have "unat (bottom :: 'w word) < 2 ^ LENGTH('w)"
      by simp
    ultimately have "?C + ?B < 2 ^ LENGTH('w)"
      by (rule order_le_less_trans)
    then show ?thesis
      by (simp add: unat_add_lem)
  qed
  then have gB: "unat (block_size c1) = snd (grown pol (Suc j))"
    using B1 empty g by (auto split: Increment_policy.splits)
  have fit1: "fst (grown pol (Suc j + length ts)) \<le> unat (bottom :: 'w word)"
    using Cons.prems(5) by simp
  from Cons.IH [OF ok1 jle1 gC gB fit1]
  obtain c' where c': "insert_range pol c1 ts =
            Some (c', map (\<lambda>i. \<lparr>m_idx = of_nat i\<rparr>) [Suc j..<Suc j + length ts])"
    "free_list_ok c' [Suc j + length ts..<unat (capacity_m c')]"
    "Suc j + length ts \<le> unat (capacity_m c')"
    "unat (capacity_m c') = fst (grown pol (Suc j + length ts))"
    "unat (block_size c') = snd (grown pol (Suc j + length ts))"
    "cc_inv c1 [Suc j..<unat (capacity_m c1)] \<and> (\<forall>t \<in> set ts. static_type t = USED)
           \<longrightarrow> cc_inv c' [Suc j + length ts..<unat (capacity_m c')]"
    by blast
  have "[j..<j + length (t # ts)] = j # [Suc j..<Suc j + length ts]"
    using upt_conv_Cons [of j "Suc (j + length ts)"] by simp
  then have run: "insert_range pol c (t # ts) =
      Some (c', map (\<lambda>i. \<lparr>m_idx = of_nat i\<rparr>) [j..<j + length (t # ts)])"
    using ins c'(1) i by simp
  have inv: "cc_inv c' [j + length (t # ts)..<unat (capacity_m c')]"
    if "cc_inv c [j..<?C]" "\<forall>t \<in> set (t # ts). static_type t = USED"
  proof -
    from that(2) have "static_type t = USED"
      by simp
    from insert_cc_inv [OF that(1) ins b1 this] have "cc_inv c1 [Suc j..<unat (capacity_m c1)]"
      unfolding fl1 .
    with c'(6) that(2) show ?thesis
      by simp
  qed
  from run c'(2-5) inv show ?case
    by (intro exI [of _ c']) simp
qed

lemma used_indices_filled:
  fixes c :: "('w::len, 'a) Compact_container_with_index_2"
  assumes "cc_inv c [k..<unat (capacity_m c)]" and "k \<le> unat (capacity_m c)"
  shows "used_indices c = [0..<k]"
proof -
  let ?n = "unat (capacity_m c)"
  let ?P = "\<lambda>i. static_type (items c ! i) = USED"
  from assms(1) have len: "length (items c) = ?n" and ch: "chain (items c) (free_list c) [k..<?n]"
    and free: "\<forall>j < length (items c). static_type (items c ! j) = FREE \<longrightarrow> j \<in> set [k..<?n]"
    by (simp_all add: cc_inv_def free_list_ok_def)
  have a: "?P i" if "i < k" for i
  proof -
    from that assms(2) have "i < length (items c)" "i \<notin> set [k..<?n]"
      by (simp_all add: len)
    with free have "static_type (items c ! i) \<noteq> FREE"
      by blast
    then show ?thesis
      by (cases "static_type (items c ! i)") simp_all
  qed
  have b: "\<not> ?P i" if "k \<le> i" "i < ?n" for i
    using chain_bounds [OF ch, of i] that by simp
  have "[0..<?n] = [0..<k] @ [k..<?n]"
    using assms(2) by (metis le_Suc_ex upt_add_eq_append zero_le)
  moreover have "filter ?P [0..<k] = [0..<k]"
    using a by (simp add: filter_id_conv)
  moreover have "filter ?P [k..<?n] = []"
    using b by (simp add: filter_empty_conv)
  ultimately show ?thesis
    by (simp add: used_indices_def len)
qed



lemma free_list_ok_init: "free_list_ok (init pol) []"
  by (simp add: free_list_ok_def init_def items_def)

lemma apply_operation_free_list_ok:
  fixes c :: "('w::len, 'a) Compact_container_with_index_2"
  assumes "free_list_ok c fl" and "apply_operation pol c x = Some c'"
    and "capacity_m c' \<le> bottom"
  shows "\<exists>fl'. free_list_ok c' fl'"
proof (cases x)
  case (Insert t)
  with assms obtain i where "insert_cc pol c t = Some (c', i)"
    by auto
  from insert_step(3) [OF assms(1) this assms(3)] show ?thesis ..
next
  case (Emplace t)
  with assms obtain i where "insert_cc pol c t = Some (c', i)"
    by (auto simp: emplace_insert)
  from insert_step(3) [OF assms(1) this assms(3)] show ?thesis ..
next
  case (Erase i)
  with assms have "erase c i = Some c'"
    by simp
  from erase_free_list_ok [OF assms(1) this] show ?thesis
    by blast
qed

lemma run_free_list_ok:
  fixes c :: "('w::len, 'a) Compact_container_with_index_2"
  assumes "free_list_ok c fl" and "run pol c xs = Some c'" and "capacity_m c' \<le> bottom"
  shows "\<exists>fl'. free_list_ok c' fl'"
  using assms
proof (induction xs arbitrary: c fl)
  case Nil
  then show ?case by auto
next
  case (Cons x xs)
  from Cons.prems(2) obtain d where d: "apply_operation pol c x = Some d" "run pol d xs = Some c'"
    by (auto split: option.splits)
  from run_capacity_mono [OF d(2)] Cons.prems(3) have "capacity_m d \<le> bottom"
    by (rule order_trans)
  from apply_operation_free_list_ok [OF Cons.prems(1) d(1) this]
  obtain fl1 where "free_list_ok d fl1" ..
  from Cons.IH [OF this d(2) Cons.prems(3)] show ?case .
qed

lemma insert_range_append:
  "insert_range pol c (xs @ ys) =
     (case insert_range pol c xs of
        None \<Rightarrow> None
      | Some (d, is) \<Rightarrow>
          (case insert_range pol d ys of
             None \<Rightarrow> None
           | Some (c', js) \<Rightarrow> Some (c', is @ js)))"
  by (induction xs arbitrary: c) (auto split: option.splits)

text \<open>What an insertion leaves alone, in any state whose array has \<^verbatim>\<open>capacity_\<close> slots.\<close>

lemma allocate_new_block_frame:
  fixes c :: "('w::len, 'a) Compact_container_with_index_2"
  assumes al: "allocate_new_block pol c = Some c'"
    and len: "length (items c) = unat (capacity_m c)"
  shows "capacity_m c' = capacity_m c + block_size c"
    and "unat (capacity_m c') = unat (capacity_m c) + unat (block_size c)"
    and "capacity_m c < capacity_m c'"
    and "length (items c') = unat (capacity_m c')"
    and "size_m c' = size_m c" and "free_list c' = capacity_m c"
    and "\<forall>j < unat (capacity_m c).
           static_type (items c' ! j) = static_type (items c ! j)
           \<and> static_get_val (items c' ! j) = static_get_val (items c ! j)
           \<and> (static_type (items c ! j) = USED \<longrightarrow> items c' ! j = items c ! j)"
    and "\<forall>j. unat (capacity_m c) \<le> j \<and> j < unat (capacity_m c') \<longrightarrow>
           static_type (items c' ! j) = FREE \<and> payload (items c' ! j) = None"
proof -
  let ?n = "unat (capacity_m c)" and ?b = "unat (block_size c)"
  let ?xs = "items c"
  note g = allocate_new_block_grows [OF al]
  from grows_nowrap [OF g]
  have nowrap: "?n + ?b < 2 ^ LENGTH('w)" and bs: "block_size c \<noteq> 0"
    by simp_all
  from allocate_new_block_result [OF len nowrap bs, of pol] al
  have cap: "capacity_m c' = capacity_m c + block_size c" and sz: "size_m c' = size_m c"
    and head: "free_list c' = capacity_m c" and len1: "length (items c') = ?n + ?b"
    and cells: "\<forall>j < ?n + ?b. items c' ! j =
          (if j < ?n
           then (if static_type (?xs ! j) = USED then ?xs ! j
                 else static_set_val raw_storage (static_get_val (?xs ! j)) FREE)
           else static_set_val raw_storage
                  (if j + 1 < ?n + ?b then of_nat (j + 1) else free_list c) FREE)"
    by auto
  from nowrap have m: "unat (capacity_m c') = ?n + ?b"
    by (simp add: cap unat_add_lem)
  show "capacity_m c' = capacity_m c + block_size c" "size_m c' = size_m c"
    "free_list c' = capacity_m c"
    by (rule cap, rule sz, rule head)
  show "unat (capacity_m c') = ?n + ?b"
    by (rule m)
  show "capacity_m c < capacity_m c'"
    using g by (simp add: cap)
  show "length (items c') = unat (capacity_m c')"
    by (simp add: len1 m)
  have old: "static_type (items c' ! j) = static_type (?xs ! j)
           \<and> static_get_val (items c' ! j) = static_get_val (?xs ! j)
           \<and> (static_type (?xs ! j) = USED \<longrightarrow> items c' ! j = ?xs ! j)" if "j < ?n" for j
  proof -
    from cells that have "items c' ! j =
        (if static_type (?xs ! j) = USED then ?xs ! j
         else static_set_val raw_storage (static_get_val (?xs ! j)) FREE)"
      by simp
    moreover have "static_get_val (?xs ! j) AND bottom = static_get_val (?xs ! j)"
      by (simp add: static_get_val_and and.assoc)
    ultimately show ?thesis
      by (cases "static_type (?xs ! j)")
        (simp_all add: static_type_set_val_FREE static_get_val_set_val)
  qed
  then show "\<forall>j < ?n.
           static_type (items c' ! j) = static_type (?xs ! j)
           \<and> static_get_val (items c' ! j) = static_get_val (?xs ! j)
           \<and> (static_type (?xs ! j) = USED \<longrightarrow> items c' ! j = ?xs ! j)"
    by blast
  have "static_type (items c' ! j) = FREE \<and> payload (items c' ! j) = None"
    if "?n \<le> j" "j < ?n + ?b" for j
  proof -
    from cells that have "items c' ! j = static_set_val raw_storage
          (if j + 1 < ?n + ?b then of_nat (j + 1) else free_list c) FREE"
      by simp
    then show ?thesis
      by (simp only: static_type_set_val_FREE payload_set_val) (simp add: raw_storage_def)
  qed
  then show "\<forall>j. ?n \<le> j \<and> j < unat (capacity_m c') \<longrightarrow>
           static_type (items c' ! j) = FREE \<and> payload (items c' ! j) = None"
    by (simp add: m)
qed

lemma get_val_items:
  "get_val c i = (if i < capacity_m c \<and> unat i < length (items c)
                  then Some (static_get_val (items c ! unat i)) else None)"
  by (simp add: get_val_def subscript_items)

lemma insert_cc_frame:
  fixes c :: "('w::len, 'a) Compact_container_with_index_2"
  assumes ins: "insert_cc pol c t = Some (c', i)"
  shows "is_used c' (m_idx i) = Some (static_type t = USED)"
    and "subscript c' (m_idx i) = Some (construct t)"
    and "length (items c) = unat (capacity_m c) \<Longrightarrow> j < capacity_m c \<Longrightarrow> j \<noteq> m_idx i
         \<Longrightarrow> is_used c' j = is_used c j"
proof -
  from ins obtain c1 where
    c1: "(if free_list c = bottom then allocate_new_block pol c else Some c) = Some c1"
    and lt: "free_list c1 < capacity_m c1" "unat (free_list c1) < length (items c1)"
    and i: "i = \<lparr>m_idx = free_list c1\<rparr>"
    and c': "c' = c1\<lparr>all_items := Some ((items c1)[unat (free_list c1) := construct t]),
                  free_list := static_get_val (items c1 ! unat (free_list c1)),
                  size_m := size_m c1 + 1\<rparr>"
    unfolding insert_cc_Some by blast
  show "is_used c' (m_idx i) = Some (static_type t = USED)"
    using lt by (simp add: is_used_items i c')
  show "subscript c' (m_idx i) = Some (construct t)"
    using lt by (simp add: subscript_items i c')
  show "is_used c' j = is_used c j"
    if len: "length (items c) = unat (capacity_m c)" and j: "j < capacity_m c" "j \<noteq> m_idx i"
  proof -
    from j(1) len have n: "unat j < length (items c)"
      by (simp add: word_less_nat_alt)
    from j(2) have ne: "unat (free_list c1) \<noteq> unat j"
      by (simp add: i word_unat_eq_iff [symmetric] eq_commute)
    have "j < capacity_m c1 \<and> unat j < length (items c1)
        \<and> static_type (items c1 ! unat j) = static_type (items c ! unat j)"
    proof (cases "free_list c = bottom")
      case False
      with c1 j(1) n show ?thesis by auto
    next
      case True
      with c1 have al: "allocate_new_block pol c = Some c1"
        by simp
      note fr = allocate_new_block_frame [OF al len]
      from fr(7) n len have "static_type (items c1 ! unat j) = static_type (items c ! unat j)"
        by simp
      moreover from fr(3) j(1) have "j < capacity_m c1"
        by simp
      ultimately show ?thesis
        using fr(4) by (simp add: word_less_nat_alt)
    qed
    with j(1) n ne show ?thesis
      by (simp add: is_used_items c')
  qed
qed

lemma allocate_new_block_is_used:
  fixes c :: "('w::len, 'a) Compact_container_with_index_2"
  assumes al: "allocate_new_block pol c = Some c'"
    and len: "length (items c) = unat (capacity_m c)" and j: "j < capacity_m c"
  shows "is_used c' j = is_used c j"
proof -
  note fr = allocate_new_block_frame [OF al len]
  from j have n: "unat j < unat (capacity_m c)"
    by (simp add: word_less_nat_alt)
  from j fr(3) have j': "j < capacity_m c'"
    by simp
  then have n': "unat j < unat (capacity_m c')"
    by (simp add: word_less_nat_alt)
  from fr(7) n have "static_type (items c' ! unat j) = static_type (items c ! unat j)"
    by blast
  with j j' n n' show ?thesis
    by (simp add: is_used_items fr(4) len)
qed

subsection \<open>Beyond the index range\<close>

text \<open>With indices of eight bits and blocks of 127 slots, the 128th insertion grows the
  array to 254 slots and takes the slot of index 127, which is \<open>bottom\<close>; the link of
  that slot, 128, loses its most significant bit and reads as 0.\<close>


lemma grown_half: "grown half 127 = (127, 127)"
  by code_simp



lemma overflow_127:
  "\<exists>c :: (8, nat) Compact_container_with_index_2.
     insert_range half (init half) (replicate 127 (plain 0))
       = Some (c, map (\<lambda>i. \<lparr>m_idx = of_nat i\<rparr>) [0..<127])
     \<and> cc_inv c [] \<and> capacity_m c = 127 \<and> block_size c = 127"
proof -
  let ?c0 = "init half :: (8, nat) Compact_container_with_index_2"
  let ?ts = "replicate 127 (plain 0)"
  have z: "unat (capacity_m ?c0) = 0" "unat (block_size ?c0) = 127"
    by (simp_all add: init_def half_def)
  have a: "free_list_ok ?c0 [0..<unat (capacity_m ?c0)]"
    using free_list_ok_init [of half, where ?'a = 8 and ?'b = nat] by (simp add: z)
  have i: "cc_inv ?c0 [0..<unat (capacity_m ?c0)]"
    using cc_inv_init [of half, where ?'a = 8 and ?'b = nat] by (simp add: z)
  have g0: "grown half 0 = (0, 127)"
    by (simp add: half_def)
  have C: "unat (capacity_m ?c0) = fst (grown half 0)"
    and B: "unat (block_size ?c0) = snd (grown half 0)"
    by (simp_all add: z) (simp add: half_def)
  have k0: "0 < first_block_size half"
    by (simp add: half_def)
  have fit: "fst (grown half (0 + length ?ts)) \<le> unat (bottom :: 8 word)"
    by (simp add: grown_half bottom_8)
  have tags: "\<forall>t \<in> set ?ts. static_type t = USED"
    by (simp add: plain_def static_type_8)
  from insert_range_fill [OF a _ C B k0 fit] i tags
  obtain c where c: "insert_range half ?c0 ?ts = Some (c, map (\<lambda>i. \<lparr>m_idx = of_nat i\<rparr>) [0..<127])"
    "unat (capacity_m c) = 127" "unat (block_size c) = 127"
    "cc_inv c [127..<unat (capacity_m c)]"
    by (auto simp: grown_half)
  from c(2,3) have "capacity_m c = 127" "block_size c = 127"
    by (simp_all add: word_unat_eq_iff)
  with c(1,4) show ?thesis
    by auto
qed



lemma overflow_128:
  "\<exists>c :: (8, nat) Compact_container_with_index_2.
     insert_range half (init half) (replicate 128 (plain 0))
       = Some (c, map (\<lambda>i. \<lparr>m_idx = of_nat i\<rparr>) [0..<128])
     \<and> capacity_m c = 254 \<and> block_size c = 127 \<and> free_list c = 0 \<and> size_m c = 128
     \<and> length (items c) = 254
     \<and> (\<forall>j < 128. static_type (items c ! j) = USED)
     \<and> (\<forall>j. 128 \<le> j \<and> j < 254 \<longrightarrow> static_type (items c ! j) = FREE)"
proof -
  let ?c0 = "init half :: (8, nat) Compact_container_with_index_2"
  let ?t = "plain 0"
  from overflow_127 obtain c :: "(8, nat) Compact_container_with_index_2" where
    run: "insert_range half ?c0 (replicate 127 ?t) = Some (c, map (\<lambda>i. \<lparr>m_idx = of_nat i\<rparr>) [0..<127])"
    and inv: "cc_inv c []" and cap: "capacity_m c = 127" and bs: "block_size c = 127"
    by blast
  from inv have len: "length (items c) = 127" and hd: "free_list c = bottom"
    and sz: "unat (size_m c) = 127"
    and used: "\<forall>j < 127. static_type (items c ! j) \<noteq> FREE"
    by (auto simp: cc_inv_def free_list_ok_def cap)
  from sz have size: "size_m c = 127"
    by (simp add: word_unat_eq_iff)
  have "length (items c) = unat (capacity_m c)"
    "unat (capacity_m c) + unat (block_size c) < 2 ^ LENGTH(8)" "block_size c \<noteq> 0"
    by (simp_all add: len cap bs)
  from allocate_new_block_result [OF this, of half]
  obtain c1 where c1: "allocate_new_block half c = Some c1" "capacity_m c1 = 254"
    "size_m c1 = 127" "block_size c1 = 127" "free_list c1 = 127" "length (items c1) = 254"
    and cells: "\<forall>j < 254. items c1 ! j =
          (if j < 127
           then (if static_type (items c ! j) = USED then items c ! j
                 else static_set_val raw_storage (static_get_val (items c ! j)) FREE)
           else static_set_val raw_storage
                  (if j + 1 < 254 then of_nat (j + 1) else free_list c) FREE)"
    by (auto simp: cap bs size half_def)
  define c' where "c' = c1\<lparr>all_items := Some ((items c1)[unat (free_list c1) := construct ?t]),
                  free_list := static_get_val (items c1 ! unat (free_list c1)),
                  size_m := size_m c1 + 1\<rparr>"
  have ins: "insert_cc half c ?t = Some (c', \<lparr>m_idx = 127\<rparr>)"
    unfolding insert_cc_Some using hd c1 by (simp add: c'_def)
  from cells have "items c1 ! 127 = static_set_val raw_storage (of_nat 128) FREE"
    by simp
  then have "static_get_val (items c1 ! 127) = 0"
    by (simp add: static_get_val_set_val bottom_8)
  then have f: "capacity_m c' = 254" "block_size c' = 127" "free_list c' = 0" "size_m c' = 128"
    "length (items c') = 254"
    by (simp_all add: c'_def c1)
  have u: "static_type (items c' ! j) = USED" if "j < 128" for j
  proof (cases "j = 127")
    case True
    then show ?thesis
      by (simp add: c'_def c1, simp add: plain_def static_type_8)
  next
    case False
    with that have j: "j < 127"
      by simp
    with used have "static_type (items c ! j) = USED"
      by (cases "static_type (items c ! j)") auto
    moreover from cells j have "items c1 ! j =
        (if static_type (items c ! j) = USED then items c ! j
         else static_set_val raw_storage (static_get_val (items c ! j)) FREE)"
      by simp
    ultimately show ?thesis
      using False by (simp add: c'_def c1)
  qed
  have fr: "static_type (items c' ! j) = FREE" if "128 \<le> j \<and> j < 254" for j
  proof -
    from cells that have "items c1 ! j = static_set_val raw_storage
        (if j + 1 < 254 then of_nat (j + 1) else free_list c) FREE"
      by simp
    with that show ?thesis
      by (simp add: c'_def c1 static_type_set_val_FREE)
  qed
  have "(128 :: nat) = Suc 127"
    by simp
  then have "replicate 128 ?t = replicate 127 ?t @ [?t]"
    by (simp only: replicate_Suc replicate_append_same)
  moreover have "[0..<Suc 127] = [0..<127] @ [127 :: nat]"
    by (rule upt_Suc_append) simp
  then have "[0..<128] = [0..<127] @ [127 :: nat]"
    by (simp only: \<open>128 = Suc 127\<close>)
  then have "map (\<lambda>i. \<lparr>m_idx = of_nat i :: 8 word\<rparr>) [0..<128]
      = map (\<lambda>i. \<lparr>m_idx = of_nat i\<rparr>) [0..<127] @ [\<lparr>m_idx = 127\<rparr>]"
    by (simp only: map_append list.map of_nat_numeral)
  ultimately have "insert_range half ?c0 (replicate 128 ?t)
      = Some (c', map (\<lambda>i. \<lparr>m_idx = of_nat i\<rparr>) [0..<128])"
    using run ins by (simp add: insert_range_append)
  with f u fr show ?thesis
    by blast
qed

lemma used_index_not_bottom:
  fixes c :: "('w::len, 'a) Compact_container_with_index_2"
  assumes "erase c x = Some c'" and "capacity_m c \<le> bottom"
  shows "m_idx x \<noteq> bottom"
proof -
  from assms(1) have "m_idx x < capacity_m c"
    by (simp add: erase_Some_iff)
  with assms(2) show ?thesis
    by auto
qed

lemma Index_default_8: "(Index_default :: 8 Index_for_cc_with_index) = \<lparr>m_idx = 127\<rparr>"
  by (simp add: Index_default_def)

lemma insert_fits:
  fixes c :: "('w::len, 'a) Compact_container_with_index_2"
  assumes "free_list_ok c fl" and "block_size c \<noteq> 0"
    and "unat (capacity_m c) + unat (block_size c) \<le> unat (bottom :: 'w word)"
  shows "\<exists>c' i fl'. insert_cc pol c t = Some (c', i) \<and> capacity_m c' \<le> bottom
     \<and> free_list_ok c' fl' \<and> block_size c' \<noteq> 0
     \<and> unat (capacity_m c') \<le> unat (capacity_m c) + unat (block_size c)
     \<and> unat (block_size c') \<le> unat (capacity_m c) + unat (block_size c)"
proof -
  from insert_total [OF assms(1), of pol t] assms(2,3)
  obtain c' i where a: "insert_cc pol c t = Some (c', i)" "capacity_m c' \<le> bottom"
    "unat (capacity_m c') =
         (if fl = [] then unat (capacity_m c) + unat (block_size c) else unat (capacity_m c))"
    "block_size c' =
         (if fl = [] then
            (case pol of Multiply_by_two_policy_for_cc_with_size k \<Rightarrow> capacity_m c + block_size c
             | Constant_size_policy_for_cc_with_size k \<Rightarrow> block_size c)
          else block_size c)"
    by blast
  have "0 < unat (block_size c)"
    using assms(2) by (simp add: unat_gt_0)
  have "unat (bottom :: 'w word) < 2 ^ LENGTH('w)"
    by simp
  with assms(3) have "unat (capacity_m c) + unat (block_size c) < 2 ^ LENGTH('w)"
    by (rule order_le_less_trans)
  then have "unat (capacity_m c + block_size c) = unat (capacity_m c) + unat (block_size c)"
    by (simp add: unat_add_lem)
  note sum = this
  with \<open>0 < unat (block_size c)\<close> have "capacity_m c + block_size c \<noteq> 0"
    by (metis add_is_0 less_numeral_extra(3) unat_0)
  with a(4) assms(2) have "block_size c' \<noteq> 0"
    by (auto split: Increment_policy.splits)
  moreover from a(4) sum have "unat (block_size c') \<le> unat (capacity_m c) + unat (block_size c)"
    by (auto split: Increment_policy.splits)
  moreover note insert_step(3) [OF assms(1) a(1,2)]
  ultimately show ?thesis
    using a(1-3) by (intro exI [of _ c'] exI [of _ i]) auto
qed


lemma grown_one: "0 < first_block_size pol \<Longrightarrow> fst (grown pol (Suc 0)) = first_block_size pol"
  by simp

lemma overflow_129:
  "\<exists>c :: (8, nat) Compact_container_with_index_2.
     insert_range half (init half) (replicate 129 (plain 0))
       = Some (c, map (\<lambda>i. \<lparr>m_idx = of_nat i\<rparr>) [0..<128] @ [\<lparr>m_idx = 0\<rparr>])
     \<and> capacity_m c = 254 \<and> size_m c = 129 \<and> length (items c) = 254
     \<and> (\<forall>j. 128 \<le> j \<and> j < 254 \<longrightarrow> static_type (items c ! j) = FREE)"
proof -
  let ?c0 = "init half :: (8, nat) Compact_container_with_index_2"
  let ?t = "plain 0"
  from overflow_128 obtain c :: "(8, nat) Compact_container_with_index_2" where
    run: "insert_range half ?c0 (replicate 128 ?t) = Some (c, map (\<lambda>i. \<lparr>m_idx = of_nat i\<rparr>) [0..<128])"
    and f: "capacity_m c = 254" "free_list c = 0" "size_m c = 128" "length (items c) = 254"
    and fr: "\<forall>j. 128 \<le> j \<and> j < 254 \<longrightarrow> static_type (items c ! j) = FREE"
    by blast
  define c' where "c' = c\<lparr>all_items := Some ((items c)[unat (free_list c) := construct ?t]),
                  free_list := static_get_val (items c ! unat (free_list c)),
                  size_m := size_m c + 1\<rparr>"
  have ins: "insert_cc half c ?t = Some (c', \<lparr>m_idx = 0\<rparr>)"
    unfolding insert_cc_Some using f by (simp add: c'_def bottom_8)
  have f': "capacity_m c' = 254" "size_m c' = 129" "length (items c') = 254"
    by (simp_all add: c'_def f)
  have fr': "static_type (items c' ! j) = FREE" if "128 \<le> j \<and> j < 254" for j
    using fr that by (simp add: c'_def f)
  have "(129 :: nat) = Suc 128"
    by simp
  then have "replicate 129 ?t = replicate 128 ?t @ [?t]"
    by (simp only: replicate_Suc replicate_append_same)
  then have "insert_range half ?c0 (replicate 129 ?t)
      = Some (c', map (\<lambda>i. \<lparr>m_idx = of_nat i\<rparr>) [0..<128] @ [\<lparr>m_idx = 0\<rparr>])"
    using run ins by (simp add: insert_range_append del: upt_rec_numeral)
  with f' fr' show ?thesis
    by blast
qed

lemma run_map_Insert:
  "run pol c (map Insert ts) = map_option fst (insert_range pol c ts)"
  by (induction ts arbitrary: c) (auto split: option.splits)

lemma run_capacity_zero:
  fixes c :: "('w::len, 'a) Compact_container_with_index_2"
  assumes "run pol (init pol) ops = Some c" and "capacity_m c = 0"
  shows "c = init pol"
proof (cases ops)
  case Nil
  with assms(1) show ?thesis by simp
next
  case (Cons x xs)
  let ?c0 = "init pol :: ('w, 'a) Compact_container_with_index_2"
  from assms(1) Cons obtain c1 where c1: "apply_operation pol ?c0 x = Some c1"
    and r: "run pol c1 xs = Some c"
    by (auto split: option.splits)
  have ins: "0 < capacity_m c1" if "insert_cc pol ?c0 t = Some (c1, i)" for t i
  proof -
    from that obtain ca where al: "allocate_new_block pol ?c0 = Some ca"
      and "capacity_m c1 = capacity_m ca"
      unfolding insert_cc_Some by (auto simp: init_def)
    moreover from allocate_new_block_grows [OF al] allocate_new_block_capacity [OF al]
    have "capacity_m ?c0 < capacity_m ca"
      by simp
    ultimately show ?thesis
      by (simp add: init_def)
  qed
  have "0 < capacity_m c1"
  proof (cases x)
    case (Insert t)
    with c1 ins show ?thesis by auto
  next
    case (Emplace t)
    with c1 ins show ?thesis by (auto simp: emplace_insert)
  next
    case (Erase i)
    with c1 show ?thesis by (simp add: erase_Some_iff init_def)
  qed
  moreover from run_capacity_mono [OF r] have "capacity_m c1 \<le> capacity_m c" .
  ultimately have "0 < capacity_m c"
    by (rule less_le_trans)
  with assms(2) show ?thesis by simp
qed

subsection \<open>The first two insertions\<close>








section \<open>The claims\<close>

text \<open>
  Claim C9. \<^verbatim>\<open>erase(x)\<close> has the precondition \<^verbatim>\<open>type(x) == USED\<close>: it fails exactly when
  that does not hold (in particular for an index outside the array). When it holds,
  erase returns; the slot holds no value any more, is marked free and links to the
  previous head of the free list, the head of the free list is the slot, \<^verbatim>\<open>size_\<close> is
  decremented, and nothing else changes. In a state that satisfies the invariant, the
  free list is the old one with the slot in front and the size is one less, with no
  wrap-around.
\<close>

theorem erase_contract:
  fixes c :: "('w::len, 'a) Compact_container_with_index_2"
  shows "(erase c x \<noteq> None \<longleftrightarrow> type c (m_idx x) = Some USED)
    \<and> (type c (m_idx x) = Some USED \<longrightarrow>
         (\<exists>c'. erase c x = Some c' \<and> payload (items c' ! unat (m_idx x)) = None
            \<and> static_type (items c' ! unat (m_idx x)) = FREE
            \<and> static_get_val (items c' ! unat (m_idx x)) = free_list c AND bottom
            \<and> free_list c' = m_idx x \<and> size_m c' = size_m c - 1
            \<and> capacity_m c' = capacity_m c \<and> block_size c' = block_size c
            \<and> length (items c') = length (items c)
            \<and> (\<forall>j. j \<noteq> unat (m_idx x) \<longrightarrow> items c' ! j = items c ! j)
            \<and> (\<forall>fl. cc_inv c fl \<longrightarrow>
                   cc_inv c' (unat (m_idx x) # fl) \<and> unat (size_m c) = Suc (unat (size_m c')))))"
proof (intro conjI impI)
  show "erase c x \<noteq> None \<longleftrightarrow> type c (m_idx x) = Some USED"
    by (auto simp: erase_Some_iff type_items)
next
  assume "type c (m_idx x) = Some USED"
  then obtain c' where er: "erase c x = Some c'"
    by (auto simp: erase_Some_iff type_items split: if_splits)
  then have i: "unat (m_idx x) < length (items c)"
    and c': "c' = c\<lparr>all_items := Some ((items c)[unat (m_idx x) :=
                   static_set_val \<lparr>for_compact_container = 0, payload = None\<rparr> (free_list c) FREE]),
              free_list := m_idx x, size_m := size_m c - 1\<rparr>"
    by (simp_all add: erase_Some_iff)
  from i have "payload (items c' ! unat (m_idx x)) = None"
    "static_type (items c' ! unat (m_idx x)) = FREE"
    "static_get_val (items c' ! unat (m_idx x)) = free_list c AND bottom"
    by (simp_all add: c' payload_set_val static_type_set_val_FREE static_get_val_set_val)
  moreover have "free_list c' = m_idx x" "size_m c' = size_m c - 1" "capacity_m c' = capacity_m c"
    "block_size c' = block_size c" "length (items c') = length (items c)"
    "\<forall>j. j \<noteq> unat (m_idx x) \<longrightarrow> items c' ! j = items c ! j"
    by (simp_all add: c')
  moreover have "\<forall>fl. cc_inv c fl \<longrightarrow>
      cc_inv c' (unat (m_idx x) # fl) \<and> unat (size_m c) = Suc (unat (size_m c'))"
    using erase_cc_inv [OF _ er] by blast
  ultimately show "\<exists>c'. erase c x = Some c' \<and> payload (items c' ! unat (m_idx x)) = None
            \<and> static_type (items c' ! unat (m_idx x)) = FREE
            \<and> static_get_val (items c' ! unat (m_idx x)) = free_list c AND bottom
            \<and> free_list c' = m_idx x \<and> size_m c' = size_m c - 1
            \<and> capacity_m c' = capacity_m c \<and> block_size c' = block_size c
            \<and> length (items c') = length (items c)
            \<and> (\<forall>j. j \<noteq> unat (m_idx x) \<longrightarrow> items c' ! j = items c ! j)
            \<and> (\<forall>fl. cc_inv c fl \<longrightarrow>
                   cc_inv c' (unat (m_idx x) # fl) \<and> unat (size_m c) = Suc (unat (size_m c')))"
    using er by blast
qed

theorem erase_contract_witness:
  "type two_used 0 = Some USED \<and> cc_inv two_used []
   \<and> (\<exists>c'. erase two_used \<lparr>m_idx = 0\<rparr> = Some c' \<and> free_list c' = 0 \<and> size_m c' = 1
          \<and> payload (items c' ! 0) = None \<and> cc_inv c' [0])"
proof -
  have t: "type two_used (m_idx \<lparr>m_idx = 0 :: 8 word\<rparr>) = Some USED"
    by (simp add: type_items two_used_def items_def static_type_8)
  from erase_contract [of two_used "\<lparr>m_idx = 0\<rparr>"] t two_used_inv
  obtain c' where "erase two_used \<lparr>m_idx = 0\<rparr> = Some c'" "free_list c' = 0"
    "size_m c' = size_m two_used - 1" "payload (items c' ! 0) = None" "cc_inv c' [0]"
    by auto
  moreover have "size_m two_used - 1 = 1"
    by (simp add: two_used_def)
  ultimately show ?thesis
    using t two_used_inv by auto
qed

text \<open>
  Claim C8, amended. In a state whose array has \<^verbatim>\<open>capacity_\<close> slots, \<^verbatim>\<open>clear\<close> returns; the
  array it deallocates has every used slot destroyed and every other slot as it was;
  the new state is the empty state: capacity 0, size 0, free list \<open>bottom\<close>, no array,
  which is the state of a freshly constructed container. So after \<^verbatim>\<open>clear\<close> every
  sequence of insertions returns the indices, and reaches the sizes and the iteration
  order, that it does on a freshly constructed container. On the freshly constructed
  container \<^verbatim>\<open>clear\<close> changes nothing, and among the states reached from it \<^verbatim>\<open>clear\<close>
  leaves the state as it is exactly when the capacity is 0: a container that is empty
  but has capacity loses its capacity and the order of its free list.
\<close>

theorem clear_resets:
  fixes c :: "('w::len, 'a) Compact_container_with_index_2"
  assumes "length (items c) = unat (capacity_m c)"
  shows "\<exists>c' freed. clear pol c = Some (c', freed)
     \<and> length freed = length (items c)
     \<and> (\<forall>i < length (items c). freed ! i =
           (if static_type (items c ! i) = USED
            then (items c ! i)\<lparr>payload := None\<rparr> else items c ! i))
     \<and> capacity c' = 0 \<and> size_cc c' = 0 \<and> free_list c' = bottom \<and> all_items c' = None
     \<and> empty_cc c' \<and> c' = init pol
     \<and> (\<forall>ts. map_option (\<lambda>(d, idxs). (idxs, size_cc d, forward_iteration this d))
                  (insert_range pol c' ts)
              = map_option (\<lambda>(d, idxs). (idxs, size_cc d, forward_iteration this d))
                  (insert_range pol (init pol) ts))
     \<and> (\<forall>ops. run pol c' ops = run pol (init pol) ops)
     \<and> clear pol c' = Some (c', [])
     \<and> (\<forall>ops. run pol (init pol) ops = Some c \<longrightarrow>
            (map_option fst (clear pol c) = Some c \<longleftrightarrow> capacity_m c = 0))"
proof -
  let ?c0 = "init pol :: ('w, 'a) Compact_container_with_index_2"
  from clear_result [OF assms, of pol]
  obtain freed where f: "clear pol c = Some (?c0, freed)" "length freed = length (items c)"
    "\<forall>i < length (items c). freed ! i =
           (if static_type (items c ! i) = USED
            then (items c ! i)\<lparr>payload := None\<rparr> else items c ! i)"
    by blast
  have state: "capacity ?c0 = 0" "size_cc ?c0 = 0" "free_list ?c0 = bottom" "all_items ?c0 = None"
    "empty_cc ?c0"
    by (simp_all add: capacity_def size_cc_def empty_cc_def init_def)
  have fresh: "clear pol ?c0 = Some (?c0, [])"
    by (rule clear_init)
  have noop: "map_option fst (clear pol c) = Some c \<longleftrightarrow> capacity_m c = 0"
    if "run pol ?c0 ops = Some c" for ops
  proof
    assume "map_option fst (clear pol c) = Some c"
    with f(1) have "c = ?c0" by simp
    then show "capacity_m c = 0" by (simp add: init_def)
  next
    assume "capacity_m c = 0"
    with that have "c = ?c0" by (rule run_capacity_zero)
    with f(1) show "map_option fst (clear pol c) = Some c" by simp
  qed
  from f state fresh noop show ?thesis
    by (intro exI [of _ ?c0] exI [of _ freed]) simp
qed

theorem clear_resets_witness:
  "length (items two_used) = unat (capacity_m two_used)
   \<and> clear (Constant_size_policy_for_cc_with_size 2) two_used
       = Some (\<lparr>capacity_m = 0, size_m = 0, block_size = 2, free_list = 127, all_items = None\<rparr>,
               [\<lparr>for_compact_container = 0, payload = None\<rparr>,
                \<lparr>for_compact_container = 0, payload = None\<rparr>])"
proof -
  have l: "length (items two_used) = unat (capacity_m two_used)"
    by (simp add: two_used_def items_def)
  from clear_resets [OF l, of "Constant_size_policy_for_cc_with_size 2"]
  obtain c' freed where r: "clear (Constant_size_policy_for_cc_with_size 2) two_used = Some (c', freed)"
    "length freed = length (items two_used)"
    "\<forall>i < length (items two_used). freed ! i =
           (if static_type (items two_used ! i) = USED
            then (items two_used ! i)\<lparr>payload := None\<rparr> else items two_used ! i)"
    "c' = init (Constant_size_policy_for_cc_with_size 2)"
    by blast
  have it: "items two_used = [\<lparr>for_compact_container = 0, payload = Some 10\<rparr>,
                        \<lparr>for_compact_container = 0, payload = Some 20\<rparr>]"
    by (simp add: two_used_def items_def)
  from r(2) it obtain x y where xy: "freed = [x, y]"
    by (cases freed; cases "tl freed"; cases "tl (tl freed)") auto
  from r(3) have "freed ! 0 = (if static_type (items two_used ! 0) = USED
            then (items two_used ! 0)\<lparr>payload := None\<rparr> else items two_used ! 0)"
    "freed ! 1 = (if static_type (items two_used ! 1) = USED
            then (items two_used ! 1)\<lparr>payload := None\<rparr> else items two_used ! 1)"
    by (simp_all add: it)
  then have "freed = [\<lparr>for_compact_container = 0, payload = None\<rparr>,
                \<lparr>for_compact_container = 0, payload = None\<rparr>]"
    by (simp add: xy it static_type_8)
  with l r(1,4) show ?thesis
    by (simp add: init_def bottom_8)
qed

theorem clear_empty_counterexample:
  "map_option
     (\<lambda>c. (empty_cc c, capacity c, map_option (\<lambda>(c', freed). capacity c') (clear four c),
           map_option snd (insert_cc four c (plain 3)),
           map_option (\<lambda>(c', freed). map_option snd (insert_cc four c' (plain 3))) (clear four c)))
     (run four (init four)
        [Insert (plain 1), Insert (plain 2), Erase \<lparr>m_idx = 0\<rparr>, Erase \<lparr>m_idx = 1\<rparr>])
   = Some (True, 4, Some 0, Some \<lparr>m_idx = 1\<rparr>, Some (Some \<lparr>m_idx = 0\<rparr>))"
  by code_simp

text \<open>
  Claim C4. When \<^verbatim>\<open>allocate_new_block\<close> returns, in a state whose array has \<^verbatim>\<open>capacity_\<close>
  slots, the capacity has grown by the block size and the size is the same. Every
  index below the old capacity is used after the growth exactly when it was before; a
  used slot holds the same element at the same index, a free slot keeps its link value.
  The indices from the old capacity up to the new one are free slots that hold no
  element.
\<close>

theorem growth_keeps_slots:
  fixes c :: "('w::len, 'a) Compact_container_with_index_2"
  assumes "allocate_new_block pol c = Some c'"
    and "length (items c) = unat (capacity_m c)"
  shows "capacity_m c < capacity_m c' \<and> capacity_m c' = capacity_m c + block_size c
     \<and> size_m c' = size_m c
     \<and> (\<forall>j. j < capacity_m c \<longrightarrow>
            is_used c' j = is_used c j
            \<and> (is_used c j = Some True \<longrightarrow> subscript c' j = subscript c j)
            \<and> (is_used c j = Some False \<longrightarrow> get_val c' j = get_val c j))
     \<and> (\<forall>j. capacity_m c \<le> j \<and> j < capacity_m c' \<longrightarrow>
            is_used c' j = Some False \<and> map_option payload (subscript c' j) = Some None)"
proof -
  note fr = allocate_new_block_frame [OF assms]
  have old: "is_used c' j = is_used c j
            \<and> (is_used c j = Some True \<longrightarrow> subscript c' j = subscript c j)
            \<and> (is_used c j = Some False \<longrightarrow> get_val c' j = get_val c j)"
    if "j < capacity_m c" for j
  proof -
    from that have n: "unat j < unat (capacity_m c)"
      by (simp add: word_less_nat_alt)
    from that fr(3) have j': "j < capacity_m c'"
      by simp
    then have n': "unat j < unat (capacity_m c')"
      by (simp add: word_less_nat_alt)
    from fr(7) n have "static_type (items c' ! unat j) = static_type (items c ! unat j)
           \<and> static_get_val (items c' ! unat j) = static_get_val (items c ! unat j)
           \<and> (static_type (items c ! unat j) = USED \<longrightarrow> items c' ! unat j = items c ! unat j)"
      by blast
    with that j' n n' show ?thesis
      by (simp add: is_used_items subscript_items get_val_items fr(4) assms(2))
  qed
  have new: "is_used c' j = Some False \<and> map_option payload (subscript c' j) = Some None"
    if "capacity_m c \<le> j \<and> j < capacity_m c'" for j
  proof -
    from that have "unat (capacity_m c) \<le> unat j \<and> unat j < unat (capacity_m c')"
      by (simp add: word_less_nat_alt word_le_nat_alt)
    with fr(8) have "static_type (items c' ! unat j) = FREE \<and> payload (items c' ! unat j) = None"
      by blast
    with that show ?thesis
      by (simp add: is_used_items subscript_items fr(4) word_less_nat_alt)
  qed
  from old new fr(1,3,5) show ?thesis
    by blast
qed

theorem growth_keeps_slots_witness:
  "length (items two_used) = unat (capacity_m two_used)
   \<and> (\<exists>c'. allocate_new_block (Multiply_by_two_policy_for_cc_with_size 2) two_used = Some c'
         \<and> capacity_m c' = 4 \<and> size_m c' = 2
         \<and> is_used c' 0 = Some True \<and> is_used c' 1 = Some True
         \<and> subscript c' 1 = Some \<lparr>for_compact_container = 0, payload = Some 20\<rparr>
         \<and> is_used c' 2 = Some False \<and> is_used c' 3 = Some False)"
proof -
  let ?pol = "Multiply_by_two_policy_for_cc_with_size 2"
  have len: "length (items two_used) = unat (capacity_m two_used)"
    by (simp add: two_used_def items_def)
  have "unat (capacity_m two_used) + unat (block_size two_used) < 2 ^ LENGTH(8)"
    and "block_size two_used \<noteq> 0"
    by (simp_all add: two_used_def)
  from allocate_new_block_result [OF len this, of ?pol]
  obtain c' where al: "allocate_new_block ?pol two_used = Some c'"
    by blast
  have vals: "capacity_m two_used = 2" "block_size two_used = 2" "size_m two_used = 2"
    "is_used two_used 0 = Some True" "is_used two_used 1 = Some True"
    "subscript two_used 1 = Some \<lparr>for_compact_container = 0, payload = Some 20\<rparr>"
    by (simp_all add: two_used_def is_used_items subscript_items items_def static_type_8)
  from growth_keeps_slots [OF al len]
  have "capacity_m c' = 4" "size_m c' = 2" "is_used c' 0 = is_used two_used 0"
    "is_used c' 1 = is_used two_used 1" "subscript c' 1 = subscript two_used 1"
    "is_used c' 2 = Some False" "is_used c' 3 = Some False"
    by (simp_all add: vals)
  with al len vals show ?thesis
    by simp
qed

text \<open>
  Claim C10. The container requires of the elements it stores that the most
  significant bit of their word is 0: that bit is the used/free flag of the slot. For
  such an element, right after \<^verbatim>\<open>insert\<close> or \<^verbatim>\<open>emplace\<close> returns an index, \<^verbatim>\<open>is_used\<close> of that
  index is true. Right after \<^verbatim>\<open>erase\<close> of an index, \<^verbatim>\<open>is_used\<close> of it is false. An
  insertion, with or without growth, an erasure and a growth leave \<^verbatim>\<open>is_used\<close> of every
  other index of the container as it was.
\<close>

theorem is_used_tracks_slots:
  fixes c :: "('w::len, 'a) Compact_container_with_index_2"
  shows "(insert_cc pol c t = Some (c', i) \<longrightarrow>
            (static_type t = USED \<longrightarrow> is_used c' (m_idx i) = Some True)
            \<and> (length (items c) = unat (capacity_m c) \<longrightarrow>
                 (\<forall>j. j < capacity_m c \<and> j \<noteq> m_idx i \<longrightarrow> is_used c' j = is_used c j)))
     \<and> (emplace pol c t = Some (c', i) \<longrightarrow>
            (static_type t = USED \<longrightarrow> is_used c' (m_idx i) = Some True)
            \<and> (length (items c) = unat (capacity_m c) \<longrightarrow>
                 (\<forall>j. j < capacity_m c \<and> j \<noteq> m_idx i \<longrightarrow> is_used c' j = is_used c j)))
     \<and> (erase c x = Some c' \<longrightarrow>
            is_used c' (m_idx x) = Some False
            \<and> (\<forall>j. j \<noteq> m_idx x \<longrightarrow> is_used c' j = is_used c j))
     \<and> (allocate_new_block pol c = Some c' \<and> length (items c) = unat (capacity_m c) \<longrightarrow>
            (\<forall>j. j < capacity_m c \<longrightarrow> is_used c' j = is_used c j))"
proof -
  have ins: "(static_type t = USED \<longrightarrow> is_used c' (m_idx i) = Some True)
            \<and> (length (items c) = unat (capacity_m c) \<longrightarrow>
                 (\<forall>j. j < capacity_m c \<and> j \<noteq> m_idx i \<longrightarrow> is_used c' j = is_used c j))"
    if "insert_cc pol c t = Some (c', i)"
    using insert_cc_frame [OF that] by simp
  have er: "is_used c' (m_idx x) = Some False
            \<and> (\<forall>j. j \<noteq> m_idx x \<longrightarrow> is_used c' j = is_used c j)"
    if "erase c x = Some c'"
  proof -
    let ?z = "static_set_val \<lparr>for_compact_container = 0 :: 'w word, payload = None :: 'a option\<rparr>
        (free_list c) FREE"
    from that have r: "m_idx x < capacity_m c" "unat (m_idx x) < length (items c)"
      and c': "c' = c\<lparr>all_items := Some ((items c)[unat (m_idx x) := ?z]),
              free_list := m_idx x, size_m := size_m c - 1\<rparr>"
      by (simp_all add: erase_Some_iff)
    have "is_used c' (m_idx x) = Some False"
      using r by (simp add: is_used_items c' static_type_set_val_FREE)
    moreover have "is_used c' j = is_used c j" if "j \<noteq> m_idx x" for j
    proof -
      from that have "unat (m_idx x) \<noteq> unat j"
        by (simp add: word_unat_eq_iff [symmetric] eq_commute)
      then show ?thesis
        by (simp add: is_used_items c')
    qed
    ultimately show ?thesis
      by blast
  qed
  have gr: "\<forall>j. j < capacity_m c \<longrightarrow> is_used c' j = is_used c j"
    if "allocate_new_block pol c = Some c' \<and> length (items c) = unat (capacity_m c)"
    using allocate_new_block_is_used [of pol c c'] that by blast
  from ins er gr show ?thesis
    by (simp only: emplace_insert) blast
qed

theorem is_used_tracks_slots_witness:
  "static_type (plain 7) = USED
   \<and> (\<exists>c1 i. insert_cc four (init four) (plain 7) = Some (c1, i)
         \<and> is_used c1 (m_idx i) = Some True
         \<and> (\<exists>c2. erase c1 i = Some c2 \<and> is_used c2 (m_idx i) = Some False))"
proof -
  have u: "static_type (plain 7) = USED"
    by (simp add: plain_def static_type_8)
  have "\<exists>c1 i. insert_cc four (init four) (plain 7) = Some (c1 :: (8, nat) Compact_container_with_index_2, i)"
    using insert_total [OF free_list_ok_init, of four four "plain 7"]
    by (auto simp: init_def four_def bottom_8)
  then obtain c1 :: "(8, nat) Compact_container_with_index_2" and i
    where ins: "insert_cc four (init four) (plain 7) = Some (c1, i)"
    by blast
  from is_used_tracks_slots [of four "init four" "plain 7" c1 i] ins u
  have used: "is_used c1 (m_idx i) = Some True"
    by simp
  then have "type c1 (m_idx i) = Some USED"
    by (auto simp: is_used_def)
  then obtain c2 where er: "erase c1 i = Some c2"
    by (auto simp: erase_Some_iff type_items split: if_splits)
  from is_used_tracks_slots [of four c1 "plain 7" c2 i i] er
  have "is_used c2 (m_idx i) = Some False"
    by simp
  with u ins used er show ?thesis
    by blast
qed

text \<open>
  Claim C2, amended. In every state, when \<^verbatim>\<open>erase(x)\<close> returns for an index \<open>x\<close> other
  than \<open>bottom\<close>, the insertion (or emplacement) that follows at once returns \<open>x\<close>.
  Every used index is other than \<open>bottom\<close> as long as the capacity does not exceed
  \<open>bottom\<close> (lemma \<open>used_index_not_bottom\<close>).
\<close>

theorem erase_then_insert_reuses:
  fixes c :: "('w::len, 'a) Compact_container_with_index_2"
  assumes "erase c x = Some c'" and "m_idx x \<noteq> bottom"
  shows "(\<exists>c''. insert_cc pol c' t = Some (c'', x)) \<and> (\<exists>c''. emplace pol c' t = Some (c'', x))"
proof -
  let ?z = "static_set_val \<lparr>for_compact_container = 0 :: 'w word, payload = None :: 'a option\<rparr>
      (free_list c) FREE"
  from assms(1) have r: "m_idx x < capacity_m c" "unat (m_idx x) < length (items c)"
    and c': "c' = c\<lparr>all_items := Some ((items c)[unat (m_idx x) := ?z]),
              free_list := m_idx x, size_m := size_m c - 1\<rparr>"
    by (simp_all add: erase_Some_iff)
  have x: "x = \<lparr>m_idx = free_list c'\<rparr>"
    by (simp add: c')
  have "\<exists>c''. insert_cc pol c' t = Some (c'', x)"
    unfolding insert_cc_Some using assms(2) r by (subst x) (simp add: c')
  then show ?thesis
    by (simp add: emplace_insert)
qed

theorem erase_then_insert_reuses_witness:
  "\<exists>c' c''. erase two_used \<lparr>m_idx = 1\<rparr> = Some c' \<and> (1 :: 8 word) \<noteq> bottom
      \<and> insert_cc four c' (plain 5) = Some (c'', \<lparr>m_idx = 1\<rparr>)"
proof -
  have "type two_used 1 = Some USED"
    by (simp add: type_items two_used_def items_def static_type_8)
  then obtain c' where er: "erase two_used \<lparr>m_idx = 1\<rparr> = Some c'"
    by (auto simp: erase_Some_iff type_items split: if_splits)
  have ne: "m_idx \<lparr>m_idx = 1 :: 8 word\<rparr> \<noteq> bottom"
    by (simp add: bottom_8)
  from erase_then_insert_reuses [OF er ne, of four "plain 5"] er ne show ?thesis
    by auto
qed

theorem erase_then_insert_counterexample:
  "\<exists>c is d. insert_range half (init half) (replicate 128 (plain 0)) = Some (c, is)
      \<and> is_used c 127 = Some True \<and> erase c \<lparr>m_idx = 127\<rparr> = Some d
      \<and> insert_cc half d (plain 1) = None"
proof -
  from overflow_128 obtain c :: "(8, nat) Compact_container_with_index_2" where
    run: "insert_range half (init half) (replicate 128 (plain 0))
       = Some (c, map (\<lambda>i. \<lparr>m_idx = of_nat i\<rparr>) [0..<128])"
    and f: "capacity_m c = 254" "block_size c = 127" "length (items c) = 254"
    and u: "\<forall>j < 128. static_type (items c ! j) = USED"
    by blast
  from u have u127: "static_type (items c ! 127) = USED"
    by simp
  then have used: "is_used c 127 = Some True"
    by (simp add: is_used_items f)
  from u127 obtain d where er: "erase c \<lparr>m_idx = 127\<rparr> = Some d"
    by (simp add: erase_Some_iff f)
  then have d: "free_list d = bottom" "capacity_m d = 254" "block_size d = 127"
    by (auto simp: erase_Some_iff f bottom_8)
  have "allocate_new_block half d = None"
  proof (cases "allocate_new_block half d")
    case (Some a)
    from allocate_new_block_grows [OF this] show ?thesis
      by (simp add: d)
  qed simp
  with d(1) have "insert_cc half d (plain 1) = None"
    by (simp add: insert_cc_def)
  with run used er show ?thesis
    by blast
qed

text \<open>
  Claim C6, amended. The default-constructed index has the value \<open>bottom\<close>, the maximum
  of the index type divided by two, and \<^verbatim>\<open>is_valid\<close> is false on it. In every state
  reached from a freshly constructed container, an insertion or emplacement after
  which the capacity does not exceed \<open>bottom\<close> returns an index below \<open>bottom\<close>: a valid
  index, not the default one.
\<close>

theorem insert_never_bottom:
  fixes c :: "('w::len, 'a) Compact_container_with_index_2"
  assumes "run pol (init pol) ops = Some c"
    and "insert_cc pol c t = Some (c', i) \<or> emplace pol c t = Some (c', i)"
    and "capacity_m c' \<le> bottom"
  shows "m_idx (Index_default :: 'w Index_for_cc_with_index) = bottom
     \<and> \<not> is_valid (Index_default :: 'w Index_for_cc_with_index)
     \<and> i \<noteq> Index_default \<and> is_valid i \<and> m_idx i < bottom"
proof -
  from assms(2) have ins: "insert_cc pol c t = Some (c', i)"
    by (simp add: emplace_insert)
  from insert_cc_capacity_mono [OF ins] assms(3) have "capacity_m c \<le> bottom"
    by (rule order_trans)
  from run_free_list_ok [OF free_list_ok_init assms(1) this]
  obtain fl where "free_list_ok c fl" ..
  from insert_step(5) [OF this ins assms(3)] assms(3)
  have "unat (m_idx i) < unat (bottom :: 'w word)"
    by (simp add: word_le_nat_alt)
  then have lt: "m_idx i < bottom"
    by (simp add: word_less_nat_alt)
  then have "m_idx i \<noteq> bottom"
    by simp
  then show ?thesis
    using lt by (auto simp: Index_default_def is_valid_def bottom_def)
qed

theorem insert_never_bottom_witness:
  "\<exists>c c' i. run four (init four) [Insert (plain 1)] = Some c
      \<and> insert_cc four c (plain 2) = Some (c', i) \<and> capacity_m c' \<le> bottom \<and> is_valid i"
proof -
  let ?c0 = "init four :: (8, nat) Compact_container_with_index_2"
  have b: "block_size ?c0 \<noteq> 0" "unat (capacity_m ?c0) + unat (block_size ?c0) \<le> unat (bottom :: 8 word)"
    by (simp_all add: init_def four_def bottom_8)
  from insert_fits [OF free_list_ok_init b, of four "plain 1"]
  obtain c j fl where c: "insert_cc four ?c0 (plain 1) = Some (c, j)" "free_list_ok c fl"
    "block_size c \<noteq> 0" "unat (capacity_m c) \<le> unat (capacity_m ?c0) + unat (block_size ?c0)"
    "unat (block_size c) \<le> unat (capacity_m ?c0) + unat (block_size ?c0)"
    by blast
  from c(4,5) have "unat (capacity_m c) + unat (block_size c) \<le> unat (bottom :: 8 word)"
    by (simp add: init_def four_def bottom_8)
  from insert_fits [OF c(2,3) this, of four "plain 2"]
  obtain c' i where c': "insert_cc four c (plain 2) = Some (c', i)" "capacity_m c' \<le> bottom"
    by blast
  from c(1) have run: "run four ?c0 [Insert (plain 1)] = Some c"
    by simp
  from insert_never_bottom [OF run _ c'(2), of "plain 2" i] c'(1) have "is_valid i"
    by simp
  with run c' show ?thesis
    by blast
qed

theorem insert_returns_bottom_counterexample:
  "\<exists>(c :: (8, nat) Compact_container_with_index_2) is.
     insert_range half (init half) (replicate 128 (plain 0)) = Some (c, is)
     \<and> last is = Index_default \<and> \<not> is_valid (last is)"
proof -
  from overflow_128 obtain c :: "(8, nat) Compact_container_with_index_2" where
    run: "insert_range half (init half) (replicate 128 (plain 0))
       = Some (c, map (\<lambda>i. \<lparr>m_idx = of_nat i\<rparr>) [0..<128])"
    by blast
  have "last (map (\<lambda>i. \<lparr>m_idx = of_nat i :: 8 word\<rparr>) [0..<128]) = \<lparr>m_idx = 127\<rparr>"
    by (simp add: last_map del: upt_rec_numeral)
  with run show ?thesis
    by (auto simp: Index_default_8 is_valid_def simp del: upt_rec_numeral)
qed

text \<open>
  Claim C7, amended. For the container \<open>c\<close> at the address \<open>this\<close>, \<^verbatim>\<open>owns\<close> returns true
  exactly for the iterator \<^verbatim>\<open>end()\<close> of this container, whose index is the capacity and
  refers to no slot, and for the iterators that point to this container, at an index
  below its capacity, at a used slot. For an iterator of another container it does not
  return true.
\<close>

theorem owns_characterised:
  fixes c :: "('w::len, 'a) Compact_container_with_index_2"
  assumes "store this = Some c"
  shows "owns store this cit = Some True \<longleftrightarrow>
     cit = end_cc this c
     \<or> (m_ptr_to_cc cit = Some this \<and> m_index cit < capacity_m c
        \<and> is_used c (m_index cit) = Some True)"
proof (cases "cit = end_cc this c")
  case True
  with assms show ?thesis
    by (simp add: owns_def)
next
  case False
  show ?thesis
  proof (cases "m_ptr_to_cc cit")
    case None
    with False assms show ?thesis
      by (simp add: owns_def)
  next
    case (Some p)
    show ?thesis
    proof (cases "p = this")
      case True
      with False assms Some show ?thesis
        by (auto simp: owns_def is_used_def type_def subscript_items split: option.splits)
    next
      case ne: False
      with False assms Some show ?thesis
        by (auto simp: owns_def split: option.splits)
    qed
  qed
qed

theorem owns_characterised_witness:
  "[0 \<mapsto> two_used] 0 = Some two_used
   \<and> owns [0 \<mapsto> two_used] 0 (index_to 0 1) = Some True
   \<and> index_to 0 1 \<noteq> end_cc 0 two_used
   \<and> is_used two_used 1 = Some True"
proof -
  have s: "[0 \<mapsto> two_used] (0 :: nat) = Some two_used"
    by simp
  have u: "is_used two_used 1 = Some True" "(1 :: 8 word) < capacity_m two_used"
    "index_to 0 (1 :: 8 word) \<noteq> end_cc 0 two_used"
    by (simp_all add: is_used_items two_used_def items_def static_type_8 index_to_def end_cc_def)
  from owns_characterised [of "[0 \<mapsto> two_used]" 0 two_used "index_to 0 1"] s u
  have "owns [0 \<mapsto> two_used] 0 (index_to 0 1) = Some True"
    by (simp add: index_to_def)
  with s u show ?thesis
    by simp
qed

theorem owns_end_counterexample:
  "owns [0 \<mapsto> two_used] 0 (end_cc 0 two_used) = Some True
   \<and> is_used two_used (m_index (end_cc 0 two_used)) = None
   \<and> \<not> m_index (end_cc 0 two_used) < capacity_m two_used"
  by (simp add: owns_def end_cc_def is_used_items two_used_def)


text \<open>
  Claim C5, amended. With a first block size above zero, for every \<open>k\<close> such that the
  capacity reached after \<open>k\<close> insertions (\<open>grown\<close>) does not exceed \<open>bottom\<close>, inserting \<open>k\<close>
  elements into a freshly constructed container returns the indices 0, 1, ..., \<open>k\<close> - 1
  in that order, and the free list afterwards is \<open>k\<close>, ..., capacity - 1 in ascending
  order (\<^verbatim>\<open>allocate_new_block\<close> threads the new slots from the highest one down). When the
  word of every inserted element has its most significant bit clear, forward
  iteration then visits exactly the indices 0, 1, ..., \<open>k\<close> - 1 in ascending order.
\<close>

theorem fresh_insertions_ascending:
  fixes ts :: "('w::len, 'a) T list"
  assumes k0: "0 < first_block_size pol"
    and fit: "fst (grown pol (length ts)) \<le> unat (bottom :: 'w word)"
  shows "\<exists>c'. insert_range pol (init pol) ts =
            Some (c', map (\<lambda>i. \<lparr>m_idx = of_nat i\<rparr>) [0..<length ts])
      \<and> free_list_ok c' [length ts..<unat (capacity_m c')]
      \<and> ((\<forall>t \<in> set ts. static_type t = USED) \<longrightarrow>
            forward_iteration this c' =
              Some (map (\<lambda>i. index_to this (of_nat i)) [0..<length ts]))"
proof (cases ts)
  case Nil
  let ?c0 = "init pol :: ('w, 'a) Compact_container_with_index_2"
  have "used_indices ?c0 = []"
    by (simp add: used_indices_def)
  moreover have i0: "cc_inv ?c0 []"
    by (rule cc_inv_init)
  note forward_iteration_spec [OF i0, of this]
  ultimately have "forward_iteration this ?c0 = Some []"
    by simp
  moreover have "free_list_ok ?c0 []"
    by (rule free_list_ok_init)
  then have "free_list_ok ?c0 [0..<unat (capacity_m ?c0)]"
    by (simp add: init_def)
  ultimately show ?thesis
    using Nil by simp
next
  case (Cons t ts')
  let ?c0 = "init pol :: ('w, 'a) Compact_container_with_index_2"
  from grown_mono [of pol "Suc 0" "length ts'"] fit Cons
  have "first_block_size pol \<le> unat (bottom :: 'w word)"
    by (simp add: grown_one [OF k0] del: grown.simps)
  then have B: "unat (block_size ?c0) = snd (grown pol 0)"
    by (simp add: init_def unat_of_nat_le)
  have C: "unat (capacity_m ?c0) = fst (grown pol 0)"
    by (simp add: init_def)
  have z: "unat (capacity_m ?c0) = 0"
    by (simp add: init_def)
  have "free_list_ok ?c0 []"
    by (rule free_list_ok_init)
  then have ok: "free_list_ok ?c0 [0..<unat (capacity_m ?c0)]"
    by (simp add: z)
  have "cc_inv ?c0 []"
    by (rule cc_inv_init)
  then have inv: "cc_inv ?c0 [0..<unat (capacity_m ?c0)]"
    by (simp add: z)
  have fit0: "fst (grown pol (0 + length ts)) \<le> unat (bottom :: 'w word)"
    using fit by simp
  from insert_range_fill [OF ok _ C B k0 fit0] inv
  obtain c' where c': "insert_range pol ?c0 ts =
            Some (c', map (\<lambda>i. \<lparr>m_idx = of_nat i\<rparr>) [0..<length ts])"
    "free_list_ok c' [length ts..<unat (capacity_m c')]"
    "length ts \<le> unat (capacity_m c')"
    "(\<forall>t \<in> set ts. static_type t = USED) \<longrightarrow> cc_inv c' [length ts..<unat (capacity_m c')]"
    by auto
  have "forward_iteration this c' = Some (map (\<lambda>i. index_to this (of_nat i)) [0..<length ts])"
    if "\<forall>t \<in> set ts. static_type t = USED"
  proof -
    from c'(4) that have i: "cc_inv c' [length ts..<unat (capacity_m c')]"
      by simp
    from forward_iteration_spec [OF i, of this] used_indices_filled [OF i c'(3)] show ?thesis
      by simp
  qed
  with c'(1,2) show ?thesis
    by blast
qed

theorem fresh_insertions_ascending_witness:
  "0 < first_block_size four
   \<and> fst (grown four (length [plain 1, plain 2, plain 3, plain 4, plain 5])) \<le> unat (bottom :: 8 word)
   \<and> static_type (plain 1) = USED
   \<and> map_option snd (insert_range four (init four) [plain 1, plain 2, plain 3, plain 4, plain 5])
       = Some [\<lparr>m_idx = 0\<rparr>, \<lparr>m_idx = 1\<rparr>, \<lparr>m_idx = 2\<rparr>, \<lparr>m_idx = 3\<rparr>, \<lparr>m_idx = 4\<rparr>]
   \<and> (\<exists>c'. map_option fst (insert_range four (init four) [plain 1, plain 2, plain 3, plain 4, plain 5])
          = Some c'
        \<and> forward_iteration 0 c' = Some [index_to 0 0, index_to 0 1, index_to 0 2, index_to 0 3, index_to 0 4])"
proof -
  let ?ts = "[plain 1, plain 2, plain 3, plain 4, plain 5]"
  have a: "0 < first_block_size four"
    by (simp add: four_def)
  have g5: "grown four 5 = (8, 4)"
    by code_simp
  have len5: "length ?ts = 5"
    by simp
  have b: "fst (grown four (length ?ts)) \<le> unat (bottom :: 8 word)"
    unfolding len5 g5 by (simp add: bottom_8)
  have t: "\<forall>t \<in> set ?ts. static_type t = USED"
    by (simp add: plain_def static_type_8)
  have l: "[0..<length ?ts] = [0, 1, 2, 3, 4]"
    by (simp add: upt_rec)
  from fresh_insertions_ascending [OF a b, of 0] t
  obtain c' where "insert_range four (init four) ?ts =
            Some (c', map (\<lambda>i. \<lparr>m_idx = of_nat i\<rparr>) [0..<length ?ts])"
    "forward_iteration 0 c' = Some (map (\<lambda>i. index_to 0 (of_nat i)) [0..<length ?ts])"
    by blast
  then have "map_option snd (insert_range four (init four) ?ts)
       = Some [\<lparr>m_idx = 0\<rparr>, \<lparr>m_idx = 1\<rparr>, \<lparr>m_idx = 2\<rparr>, \<lparr>m_idx = 3\<rparr>, \<lparr>m_idx = 4\<rparr>]"
    "map_option fst (insert_range four (init four) ?ts) = Some c'"
    "forward_iteration 0 c' = Some [index_to 0 0, index_to 0 1, index_to 0 2, index_to 0 3, index_to 0 4]"
    unfolding l by simp_all
  moreover have "static_type (plain 1) = USED"
    by (simp add: plain_def static_type_8)
  ultimately show ?thesis
    using a b by blast
qed

theorem fresh_insertions_counterexample:
  "map_option (\<lambda>(c, is). (is, forward_iteration 0 c)) (insert_range four (init four) [marked])
     = Some ([\<lparr>m_idx = 0\<rparr>], Some [])
   \<and> (\<exists>(c :: (8, nat) Compact_container_with_index_2) is.
         insert_range half (init half) (replicate 129 (plain 0)) = Some (c, is)
         \<and> is ! 128 = \<lparr>m_idx = 0\<rparr>)"
proof
  show "map_option (\<lambda>(c, is). (is, forward_iteration 0 c)) (insert_range four (init four) [marked])
     = Some ([\<lparr>m_idx = 0\<rparr>], Some [])"
    by code_simp
  from overflow_129 obtain c :: "(8, nat) Compact_container_with_index_2" where
    run: "insert_range half (init half) (replicate 129 (plain 0))
       = Some (c, map (\<lambda>i. \<lparr>m_idx = of_nat i\<rparr>) [0..<128] @ [\<lparr>m_idx = 0\<rparr>])"
    by blast
  have "(map (\<lambda>i. \<lparr>m_idx = of_nat i :: 8 word\<rparr>) [0..<128] @ [\<lparr>m_idx = 0\<rparr>]) ! 128 = \<lparr>m_idx = 0\<rparr>"
    using nth_append_length [of "map (\<lambda>i. \<lparr>m_idx = of_nat i :: 8 word\<rparr>) [0..<128]"]
    by (simp del: upt_rec_numeral)
  with run show "\<exists>(c :: (8, nat) Compact_container_with_index_2) is.
         insert_range half (init half) (replicate 129 (plain 0)) = Some (c, is)
         \<and> is ! 128 = \<lparr>m_idx = 0\<rparr>"
    by blast
qed

text \<open>
  Claim C3, amended. For every sequence of insertions, emplacements and erasures that
  returns on a freshly constructed container, with a final capacity that does not
  exceed \<open>bottom\<close> and inserted elements whose word has its most significant bit clear,
  every prefix of the sequence returns a state in which forward iteration from
  \<^verbatim>\<open>begin()\<close> to \<^verbatim>\<open>end()\<close> visits exactly the used slots, in ascending order, and their
  number is \<^verbatim>\<open>size()\<close>.
\<close>

theorem size_is_iteration_count:
  fixes ops :: "(('w::len, 'a) T, 'w Index_for_cc_with_index) operation list"
  assumes run: "run pol (init pol) ops = Some c'" and bound: "capacity_m c' \<le> bottom"
    and tags: "\<forall>x \<in> set ops. well_tagged x"
  shows "\<forall>n \<le> length ops. \<exists>d its.
     run pol (init pol) (take n ops) = Some d \<and> forward_iteration this d = Some its
     \<and> length its = unat (size_cc d)
     \<and> its = map (\<lambda>j. index_to this (of_nat j)) (used_indices d)"
proof (intro allI impI)
  fix n
  assume "n \<le> length ops"
  from run_prefix [OF run, of n] obtain d where
    d: "run pol (init pol) (take n ops) = Some d" "capacity_m d \<le> capacity_m c'"
    by blast
  from d(2) bound have b: "capacity_m d \<le> bottom"
    by (rule order_trans)
  from tags have "\<forall>x \<in> set (take n ops). well_tagged x"
    by (auto dest: in_set_takeD)
  from run_cc_inv [OF cc_inv_init d(1) b this] obtain fl where inv: "cc_inv d fl" ..
  from forward_iteration_spec [OF inv, of this] used_count [OF inv] d(1)
  show "\<exists>d its.
     run pol (init pol) (take n ops) = Some d \<and> forward_iteration this d = Some its
     \<and> length its = unat (size_cc d)
     \<and> its = map (\<lambda>j. index_to this (of_nat j)) (used_indices d)"
    by (simp add: size_cc_def)
qed

theorem size_is_iteration_count_witness:
  "\<exists>c' its. run four (init four) [Insert (plain 1), Insert (plain 2), Erase \<lparr>m_idx = 0\<rparr>] = Some c'
     \<and> capacity_m c' \<le> bottom \<and> well_tagged (Insert (plain 1) :: ((8, nat) T, 8 Index_for_cc_with_index) operation)
     \<and> forward_iteration 0 c' = Some its \<and> length its = unat (size_cc c') \<and> size_cc c' = 1
     \<and> its = [index_to 0 1]"
proof -
  let ?ops = "[Insert (plain 1), Insert (plain 2), Erase \<lparr>m_idx = 0\<rparr>]
      :: ((8, nat) T, 8 Index_for_cc_with_index) operation list"
  have "map_option (\<lambda>c. (capacity_m c, size_cc c, forward_iteration 0 c)) (run four (init four) ?ops)
      = Some (4, 1, Some [index_to 0 1])"
    by code_simp
  then obtain c' where c': "run four (init four) ?ops = Some c'" "capacity_m c' = 4"
    "size_cc c' = 1" "forward_iteration 0 c' = Some [index_to 0 1]"
    by auto
  from c'(2) have b: "capacity_m c' \<le> bottom"
    by (simp add: bottom_8)
  have t: "\<forall>x \<in> set ?ops. well_tagged x"
    by (simp add: plain_def static_type_8)
  from size_is_iteration_count [OF c'(1) b t, of 0]
  have "\<exists>d its. run four (init four) (take (length ?ops) ?ops) = Some d
     \<and> forward_iteration 0 d = Some its \<and> length its = unat (size_cc d)"
    by blast
  with c' have "\<exists>its. forward_iteration 0 c' = Some its \<and> length its = unat (size_cc c')"
    by simp
  with c' b t show ?thesis
    by auto
qed

theorem size_is_iteration_count_counterexample:
  "map_option (\<lambda>c. (size_cc c, forward_iteration 0 c)) (run four (init four) [Insert marked])
     = Some (1, Some [])
   \<and> (\<exists>(c :: (8, nat) Compact_container_with_index_2) its.
         run half (init half) (replicate 129 (Insert (plain 0))) = Some c
         \<and> size_cc c = 129 \<and> forward_iteration 0 c = Some its \<and> length its \<le> 128)"
proof
  show "map_option (\<lambda>c. (size_cc c, forward_iteration 0 c)) (run four (init four) [Insert marked])
     = Some (1, Some [])"
    by code_simp
  from overflow_129 obtain c :: "(8, nat) Compact_container_with_index_2" and idxs where
    run: "insert_range half (init half) (replicate 129 (plain 0)) = Some (c, idxs)"
    and f: "capacity_m c = 254" "size_m c = 129" "length (items c) = 254"
    and fr: "\<forall>j. 128 \<le> j \<and> j < 254 \<longrightarrow> static_type (items c ! j) = FREE"
    by blast
  let ?P = "\<lambda>j. static_type (items c ! j) = USED"
  have "replicate 129 (Insert (plain 0)) = map Insert (replicate 129 (plain 0))"
    by (simp only: map_replicate)
  moreover have "run half (init half) (map Insert (replicate 129 (plain 0))) = Some c"
    unfolding run_map_Insert run by simp
  ultimately have r: "run half (init half) (replicate 129 (Insert (plain 0))) = Some c"
    by (rule ssubst)
  have it: "forward_iteration 0 c = Some (map (\<lambda>j. index_to 0 (of_nat j)) (used_indices c))"
    by (rule forward_iteration_sized) (simp_all add: f)
  have "[0..<254] = [0..<128] @ [128..<254]"
    using upt_add_eq_append [of 0 128 126] by simp
  moreover have "filter ?P [128..<254] = []"
    using fr by (auto simp: filter_empty_conv simp del: upt_rec_numeral)
  ultimately have "used_indices c = filter ?P [0..<128]"
    by (simp add: used_indices_def f del: upt_rec_numeral)
  moreover have "length (filter ?P [0..<128]) \<le> length [0..<128]"
    by (rule length_filter_le)
  ultimately have "length (used_indices c) \<le> 128"
    by (simp del: upt_rec_numeral)
  with r it f(2) show "\<exists>(c :: (8, nat) Compact_container_with_index_2) its.
         run half (init half) (replicate 129 (Insert (plain 0))) = Some c
         \<and> size_cc c = 129 \<and> forward_iteration 0 c = Some its \<and> length its \<le> 128"
    by (auto simp: size_cc_def simp del: upt_rec_numeral)
qed


end
